theory Spec2Isabelle
  imports Complex_Main "HOL-Library.Multiset"
begin

section \<open>Wildcard domain finder: the program\<close>

text \<open>
  A shallow embedding of \<^verbatim>\<open>app.js\<close>: the module constant \<^verbatim>\<open>CONFIG\<close>, the class
  \<^verbatim>\<open>DomainFinder\<close> with its methods \<^verbatim>\<open>isDomainAvailable\<close>, \<^verbatim>\<open>generateDomains\<close>,
  \<^verbatim>\<open>processDomainBatch\<close> and \<^verbatim>\<open>findAvailableDomains\<close>, and the validation done by
  \<^verbatim>\<open>main\<close>. Strings are lists of characters, the counters are natural numbers, and the
  object \<^verbatim>\<open>this\<close> is passed explicitly and returned updated. What is printed on
  the console is not part of the model, and the output stream is taken to accept every
  write.
\<close>

subsection \<open>Configuration\<close>

record config =
  ALPHABET :: string
  CONCURRENT_CHECKS :: nat
  TIMEOUT :: nat
  OUTPUT_FILE :: string
  PROGRESS_UPDATE_INTERVAL :: nat

definition CONFIG :: config where
  "CONFIG =
     \<lparr>ALPHABET = ''abcdefghijklmnopqrstuvwxyz0123456789'',
      CONCURRENT_CHECKS = 10,
      TIMEOUT = 5000,
      OUTPUT_FILE = ''available_domains.txt'',
      PROGRESS_UPDATE_INTERVAL = 50\<rparr>"

subsection \<open>generateDomains\<close>

text \<open>
  The only error the generator's code can raise is the engine's own: a recursion that
  never reaches its base case exhausts the call stack.
\<close>

datatype error = RangeError

text \<open>
  \<^verbatim>\<open>for (const char of chars) { ... }\<close> over a body that updates the array
  \<^verbatim>\<open>domains\<close>: the state is threaded through the iterations, and an exception
  leaves the loop.
\<close>

fun for_of :: "'a list \<Rightarrow> ('a \<Rightarrow> 's \<Rightarrow> error + 's) \<Rightarrow> 's \<Rightarrow> error + 's" where
  "for_of [] body s = Inr s"
| "for_of (x # xs) body s =
     (case body x s of Inl e \<Rightarrow> Inl e | Inr s' \<Rightarrow> for_of xs body s')"

lemma for_of_cong [fundef_cong]:
  "xs = ys \<Longrightarrow> s = t \<Longrightarrow> (\<And>x u. x \<in> set ys \<Longrightarrow> body x u = body' x u)
   \<Longrightarrow> for_of xs body s = for_of ys body' t"
proof (induction ys arbitrary: xs s t)
  case Nil
  then show ?case by simp
next
  case (Cons y ys)
  then show ?case by (auto split: sum.splits)
qed

text \<open>
  The inner closure \<^verbatim>\<open>generateWithWildcard(domain, index)\<close>. It pushes onto the
  captured array \<^verbatim>\<open>domains\<close>, which is the last argument here and the result.
  \<^verbatim>\<open>domain.slice(0, index) + char + domain.slice(index + 1)\<close> is
  \<open>take index domain @ char # drop (index + 1) domain\<close>. The base case tests
  \<^verbatim>\<open>index === domain.length\<close>; started beyond the end, the source reads
  \<^verbatim>\<open>undefined\<close>, which is not the marker, and recurses until the stack is exhausted.
\<close>

function generateWithWildcard ::
  "char list \<Rightarrow> string \<Rightarrow> nat \<Rightarrow> string list \<Rightarrow> error + string list" where
  "generateWithWildcard chars domain index domains =
     (if index = length domain then Inr (domains @ [domain])
      else if length domain < index then Inl RangeError
      else if domain ! index = CHR ''*'' then
        for_of chars
          (\<lambda>char ds. generateWithWildcard chars
                        (take index domain @ char # drop (index + 1) domain) (index + 1) ds)
          domains
      else generateWithWildcard chars domain (index + 1) domains)"
  by pat_completeness auto
termination
  by (relation "measure (\<lambda>(chars, domain, index, domains). length domain - index)") auto

declare generateWithWildcard.simps [simp del]

text \<open>
  \<^verbatim>\<open>generateDomains(baseDomain, randomize = true)\<close>. The argument \<open>randomize\<close> is
  \<open>None\<close> when the caller passes none. \<^verbatim>\<open>chars.sort(() => Math.random() - 0.5)\<close>
  rearranges the array in place in an order that depends on the random numbers drawn:
  \<open>sort_random\<close> is the rearrangement this call performs.
\<close>

definition generateDomains ::
  "config \<Rightarrow> (char list \<Rightarrow> char list) \<Rightarrow> string \<Rightarrow> bool option \<Rightarrow> error + string list" where
  "generateDomains cfg sort_random baseDomain randomize =
     (if CHR ''*'' \<notin> set baseDomain then Inr [baseDomain]
      else
        let chars = ALPHABET cfg;
            chars = (if (case randomize of None \<Rightarrow> True | Some b \<Rightarrow> b)
                     then sort_random chars else chars)
        in generateWithWildcard chars baseDomain 0 [])"

subsection \<open>The finder object\<close>

text \<open>
  \<^verbatim>\<open>this.stats\<close>, and the fields of a \<^verbatim>\<open>DomainFinder\<close>. The counters are
  natural numbers (the source's numbers count exactly far beyond any run);
  \<open>startTime\<close> is \<^verbatim>\<open>null\<close> until a run starts. Batch size and timeout are natural
  numbers as well: the command line parses them with \<^verbatim>\<open>parseInt\<close>, and a negative
  value, which it would let through, is outside this model.
\<close>

record stats =
  total :: nat
  checked :: nat
  available :: nat
  errors :: nat
  startTime :: "nat option"

record finder =
  concurrentChecks :: nat
  timeout :: nat
  outputFile :: string
  stats :: stats
  recentlyFound :: "string list"
  currentlyChecking :: string

text \<open>
  The options object of \<^verbatim>\<open>parseArguments\<close>, which \<^verbatim>\<open>main\<close> also hands to the
  constructor. A field that is \<^verbatim>\<open>null\<close> or \<^verbatim>\<open>undefined\<close> is \<open>None\<close>.
\<close>

record options =
  opt_domain :: "string option"
  opt_concurrentChecks :: "nat option"
  opt_timeout :: "nat option"
  opt_outputFile :: "string option"
  opt_help :: bool

text \<open>\<^verbatim>\<open>x || d\<close> on numbers and on strings: \<^verbatim>\<open>undefined\<close>, \<open>0\<close> and the empty string are falsy.\<close>

definition or_number :: "nat option \<Rightarrow> nat \<Rightarrow> nat" where
  "or_number x d = (case x of None \<Rightarrow> d | Some n \<Rightarrow> if n = 0 then d else n)"

definition or_string :: "string option \<Rightarrow> string \<Rightarrow> string" where
  "or_string x d = (case x of None \<Rightarrow> d | Some s \<Rightarrow> if s = [] then d else s)"

definition DomainFinder :: "config \<Rightarrow> options \<Rightarrow> finder" where
  "DomainFinder cfg options =
     \<lparr>concurrentChecks = or_number (opt_concurrentChecks options) (CONCURRENT_CHECKS cfg),
      timeout = or_number (opt_timeout options) (TIMEOUT cfg),
      outputFile = or_string (opt_outputFile options) (OUTPUT_FILE cfg),
      stats = \<lparr>total = 0, checked = 0, available = 0, errors = 0, startTime = None\<rparr>,
      recentlyFound = [],
      currentlyChecking = []\<rparr>"

subsection \<open>isDomainAvailable\<close>

text \<open>
  What \<^verbatim>\<open>dns.resolve(domain)\<close> does with its promise: it fulfils it with the address
  records, or rejects it with an error that may carry a \<^verbatim>\<open>code\<close>, some milliseconds
  after the call; or it never settles it.
\<close>

datatype resolution =
  Fulfilled nat "string list"
| Rejected nat "string option"
| Unsettled

text \<open>
  \<^verbatim>\<open>isDomainAvailable(domain)\<close> awaits the resolution, so it returns when the
  resolution settles: the result is \<open>None\<close> when it never does, and otherwise the time
  of the return (milliseconds after the call), the boolean returned, and the finder as the
  function leaves it. The finder passed in is the object as it is when the function
  resumes. The function also makes an \<^verbatim>\<open>AbortController\<close> and arms a timer of
  \<^verbatim>\<open>this.timeout\<close> milliseconds that aborts it; the controller's signal is handed to
  nobody, so the timer firing changes nothing that the function or the object can see, and
  it has no clause below.
\<close>

fun isDomainAvailable :: "finder \<Rightarrow> string \<Rightarrow> resolution \<Rightarrow> (nat \<times> bool \<times> finder) option" where
  "isDomainAvailable f domain (Fulfilled t addresses) = Some (t, False, f)"
| "isDomainAvailable f domain (Rejected t code) =
     (if code = Some ''ENOTFOUND'' \<or> code = Some ''ENODATA'' then Some (t, True, f)
      else Some (t, False, f\<lparr>stats := (stats f)\<lparr>errors := errors (stats f) + 1\<rparr>\<rparr>))"
| "isDomainAvailable f domain Unsettled = None"

subsection \<open>processDomainBatch\<close>

text \<open>
  What a run acts on: the finder, the chunks written to the output stream so far, and the
  network calls made so far, as the groups of domains whose \<^verbatim>\<open>dns.resolve\<close> calls were
  issued together.
\<close>

record world =
  this :: finder
  writer :: "string list"
  lookups :: "string list list"

text \<open>
  The callback of \<^verbatim>\<open>batch.map\<close> runs up to its \<^verbatim>\<open>await\<close> at once: it sets
  \<^verbatim>\<open>currentlyChecking\<close> and calls \<^verbatim>\<open>isDomainAvailable\<close>, which issues the lookup.
\<close>

definition check_start :: "string \<Rightarrow> world \<Rightarrow> world" where
  "check_start domain w = w\<lparr>this := (this w)\<lparr>currentlyChecking := domain\<rparr>\<rparr>"

text \<open>\<^verbatim>\<open>this.recentlyFound.unshift(domain)\<close>, then \<^verbatim>\<open>pop()\<close> when longer than 3.\<close>

definition remember :: "string \<Rightarrow> string list \<Rightarrow> string list" where
  "remember domain recent =
     (let recent = domain # recent
      in if length recent > 3 then butlast recent else recent)"

text \<open>
  The rest of the callback runs when the resolution of its domain has settled. It is the
  \<open>j\<close>-th callback of its batch, and its return value settles the \<open>j\<close>-th promise of
  \<^verbatim>\<open>batchPromises\<close> (\<open>None\<close> while pending). The engine runs one continuation at a
  time, so each is a step on the state the earlier ones left. The step has two parts, the
  end of \<^verbatim>\<open>isDomainAvailable\<close> and the rest of the callback, between which parts of
  other callbacks may run; no part reads what another writes except to increment a
  counter, and the parts of the callbacks keep the order of their lookups, so taking the
  two together reaches the same state once all have run.
\<close>

definition check_resume ::
  "nat \<times> string \<times> resolution \<Rightarrow> world \<times> (string \<times> bool) option list
   \<Rightarrow> world \<times> (string \<times> bool) option list" where
  "check_resume item s =
     (case (item, s) of ((j, domain, r), (w, batchPromises)) \<Rightarrow>
        (case isDomainAvailable (this w) domain r of
           None \<Rightarrow> (w, batchPromises)
         | Some (t, is_available, f) \<Rightarrow>
             let f = f\<lparr>stats := (stats f)\<lparr>checked := checked (stats f) + 1\<rparr>\<rparr>;
                 w = w\<lparr>this := f\<rparr>;
                 w = (if is_available then
                        w\<lparr>this := f\<lparr>stats := (stats f)\<lparr>available := available (stats f) + 1\<rparr>,
                                     recentlyFound := remember domain (recentlyFound f)\<rparr>,
                          writer := writer w @ [domain @ [CHR 0x0A]]\<rparr>
                      else w)
             in (w, batchPromises[j := Some (domain, is_available)])))"

text \<open>When the promise of a lookup settles, if ever.\<close>

fun settles :: "resolution \<Rightarrow> nat option" where
  "settles (Fulfilled t addresses) = Some t"
| "settles (Rejected t code) = Some t"
| "settles Unsettled = None"

text \<open>
  The callbacks of a batch whose lookups settle, in the order in which they resume: that
  of the times at which the lookups settle and, for the same time, of their calls.
\<close>

definition arrivals :: "string list \<Rightarrow> resolution list \<Rightarrow> (nat \<times> string \<times> resolution) list" where
  "arrivals batch rs =
     sort_key (\<lambda>(j, domain, r). the (settles r))
       (filter (\<lambda>(j, domain, r). settles r \<noteq> None) (zip [0..<length batch] (zip batch rs)))"

text \<open>
  One iteration of the loop up to \<^verbatim>\<open>await Promise.allSettled(batchPromises)\<close>: the
  callbacks start in order, resume as their lookups settle, and the \<^verbatim>\<open>await\<close> returns
  their values, in the order of the batch, once every promise has settled; otherwise it
  never returns (\<open>None\<close>). The callback has no path that throws (the rejection of a lookup
  is caught in \<^verbatim>\<open>isDomainAvailable\<close>), so every entry is a fulfilled one, kept as its
  value \<^verbatim>\<open>{ domain, available }\<close>.
\<close>

definition run_batch ::
  "string list \<Rightarrow> resolution list \<Rightarrow> world \<Rightarrow> (world \<times> (string \<times> bool) list) option" where
  "run_batch batch rs w =
     (let w = fold check_start batch w;
          w = w\<lparr>lookups := lookups w @ [batch]\<rparr>;
          (w, batchPromises) =
             fold check_resume (arrivals batch rs) (w, replicate (length batch) None)
      in map_option (Pair w) (those batchPromises))"

text \<open>No step of a batch assigns \<^verbatim>\<open>this.concurrentChecks\<close>.\<close>

lemma concurrentChecks_check_start:
  "concurrentChecks (this (fold check_start batch w)) = concurrentChecks (this w)"
  by (induction batch arbitrary: w) (simp_all add: check_start_def)

lemma concurrentChecks_isDomainAvailable:
  "isDomainAvailable f domain r = Some (t, b, f') \<Longrightarrow> concurrentChecks f' = concurrentChecks f"
  by (cases r) (auto split: if_splits)

lemma concurrentChecks_check_resume:
  "check_resume item (w, ps) = (w', ps')
   \<Longrightarrow> concurrentChecks (this w') = concurrentChecks (this w)"
  by (cases item)
     (auto simp: check_resume_def Let_def split: option.splits if_splits
           dest: concurrentChecks_isDomainAvailable)

lemma concurrentChecks_resumes:
  "fold check_resume its (w, ps) = (w', ps')
   \<Longrightarrow> concurrentChecks (this w') = concurrentChecks (this w)"
proof (induction its arbitrary: w ps)
  case Nil
  then show ?case by simp
next
  case (Cons item its)
  obtain w1 ps1 where st: "check_resume item (w, ps) = (w1, ps1)"
    by (cases "check_resume item (w, ps)")
  from Cons.prems have "fold check_resume its (w1, ps1) = (w', ps')"
    by (simp add: st)
  then have "concurrentChecks (this w') = concurrentChecks (this w1)"
    by (rule Cons.IH)
  with concurrentChecks_check_resume [OF st] show ?case by simp
qed

lemma concurrentChecks_run_batch:
  "run_batch batch rs w = Some (w', results)
   \<Longrightarrow> concurrentChecks (this w') = concurrentChecks (this w)"
  by (auto simp: run_batch_def Let_def concurrentChecks_check_start
           split: prod.splits dest!: concurrentChecks_resumes)

text \<open>
  \<^verbatim>\<open>displayProgress()\<close> reads the state and prints. It can throw: the progress bar
  is \<^verbatim>\<open>'#'.repeat(filledWidth) + '.'.repeat(emptyWidth)\<close> (with other glyphs), and
  \<^verbatim>\<open>repeat\<close> throws a RangeError on a negative or infinite count, while it takes
  \<^verbatim>\<open>NaN\<close> for 0. With \<^verbatim>\<open>total\<close> 0 the percentage is \<^verbatim>\<open>NaN\<close> (nothing checked)
  or \<^verbatim>\<open>Infinity\<close>. The source computes in double precision; the quotients are exact
  here, and \<open>round\<close> rounds halves up as \<^verbatim>\<open>Math.round\<close> does.
\<close>

definition displayProgress :: "finder \<Rightarrow> error + unit" where
  "displayProgress f =
     (if total (stats f) = 0 then
        (if checked (stats f) = 0 then Inr () else Inl RangeError)
      else
        let percentage = (of_nat (checked (stats f)) / of_nat (total (stats f))) * (100 :: rat);
            barWidth = 40;
            filledWidth = round ((percentage / 100) * of_int barWidth);
            emptyWidth = barWidth - filledWidth
        in if filledWidth < 0 \<or> emptyWidth < 0 then Inl RangeError else Inr ())"

text \<open>
  The loop of \<^verbatim>\<open>processDomainBatch(domains, writer)\<close>, from the index \<open>i\<close>:
  \<^verbatim>\<open>domains.slice(i, i + this.concurrentChecks)\<close> is
  \<open>take (concurrentChecks (this w)) (drop i domains)\<close>, and \<open>dns n\<close> is what the lookup
  of the \<open>n\<close>-th candidate does. With a batch size of 0 the index never advances and the
  loop never ends. The promise of \<^verbatim>\<open>processDomainBatch\<close> is rejected with what
  \<^verbatim>\<open>displayProgress\<close> throws (\<open>Some (Inl e)\<close>), fulfilled with the results
  (\<open>Some (Inr (w, results))\<close>), or never settled (\<open>None\<close>).
\<close>

function processDomainBatch_loop ::
  "(nat \<Rightarrow> resolution) \<Rightarrow> string list \<Rightarrow> nat \<Rightarrow> world \<Rightarrow> (string \<times> bool) list
   \<Rightarrow> (error + world \<times> (string \<times> bool) list) option" where
  "processDomainBatch_loop dns domains i w results =
     (if i < length domains then
        (if concurrentChecks (this w) = 0 then None
         else
           let batch = take (concurrentChecks (this w)) (drop i domains) in
           case run_batch batch (map dns [i..<i + length batch]) w of
             None \<Rightarrow> None
           | Some (w', batchResults) \<Rightarrow>
               (case (if checked (stats (this w')) mod 5 = 0
                         \<or> checked (stats (this w')) = total (stats (this w'))
                      then displayProgress (this w') else Inr ()) of
                  Inl e \<Rightarrow> Some (Inl e)
                | Inr u \<Rightarrow>
                    processDomainBatch_loop dns domains (i + concurrentChecks (this w')) w'
                      (results @ batchResults)))
      else Some (Inr (w, results)))"
  by pat_completeness auto
termination
  by (relation "measure (\<lambda>(dns, domains, i, w, results). length domains - i)")
     (auto dest: concurrentChecks_run_batch)

declare processDomainBatch_loop.simps [simp del]

definition processDomainBatch ::
  "(nat \<Rightarrow> resolution) \<Rightarrow> string list \<Rightarrow> world
   \<Rightarrow> (error + world \<times> (string \<times> bool) list) option" where
  "processDomainBatch dns domains w = processDomainBatch_loop dns domains 0 w []"

subsection \<open>findAvailableDomains and main\<close>

text \<open>
  The final summary of a run leaves one trace on the object: with more than 10 domains
  found it prints \<^verbatim>\<open>this.recentlyFound.reverse()\<close>, which reverses the array in place.
  (With 10 or fewer it reads the output file back, and reverses only if that read fails;
  the read is taken to succeed.)
\<close>

definition summary :: "world \<Rightarrow> world" where
  "summary w =
     (let f = this w
      in if recentlyFound f \<noteq> [] \<and> \<not> available (stats f) \<le> 10
         then w\<lparr>this := f\<lparr>recentlyFound := rev (recentlyFound f)\<rparr>\<rparr>
         else w)"

text \<open>
  \<^verbatim>\<open>findAvailableDomains(baseDomain)\<close> on the finder \<open>f\<close>, at the clock time \<open>now\<close>.
  It calls \<^verbatim>\<open>this.generateDomains(baseDomain)\<close> with no second argument, opens the
  output file anew, and awaits \<^verbatim>\<open>processDomainBatch\<close>. Its promise is rejected with
  an exception of the generator or of the batches (\<open>Some (Inl e)\<close>), fulfilled
  (\<open>Some (Inr w)\<close>), or never settled (\<open>None\<close>).
\<close>

definition findAvailableDomains ::
  "config \<Rightarrow> (char list \<Rightarrow> char list) \<Rightarrow> (nat \<Rightarrow> resolution) \<Rightarrow> nat \<Rightarrow> finder \<Rightarrow> string
   \<Rightarrow> (error + world) option" where
  "findAvailableDomains cfg sort_random dns now f baseDomain =
     (case generateDomains cfg sort_random baseDomain None of
        Inl e \<Rightarrow> Some (Inl e)
      | Inr domains \<Rightarrow>
          let f = f\<lparr>stats := (stats f)\<lparr>total := length domains, startTime := Some now\<rparr>\<rparr>;
              w = \<lparr>this = f, writer = [], lookups = []\<rparr>
          in case processDomainBatch dns domains w of
               None \<Rightarrow> None
             | Some (Inl e) \<Rightarrow> Some (Inl e)
             | Some (Inr (w, results)) \<Rightarrow> Some (Inr (summary w)))"

text \<open>\<^verbatim>\<open>!domain\<close>: \<^verbatim>\<open>null\<close>, \<^verbatim>\<open>undefined\<close> and the empty string are falsy.\<close>

definition falsy :: "string option \<Rightarrow> bool" where
  "falsy x = (case x of None \<Rightarrow> True | Some s \<Rightarrow> s = [])"

text \<open>
  How \<^verbatim>\<open>main\<close> ends: it returns after printing the help, or the process ends with
  an exit code, after a run of the finder (then with the state the run left) or before any.
\<close>

datatype ending = Returned | Exited nat "world option"

text \<open>
  \<^verbatim>\<open>main()\<close> from the parsed options on. When no pattern was given it awaits the
  interactive prompt: \<open>answer\<close> is the line the prompt reads, or \<open>None\<close> when the input
  ends before any line, in which case the prompt never calls back, \<^verbatim>\<open>main\<close> stays
  suspended with nothing left to run, and the process ends with code 0 and no message.
  The result is \<open>None\<close> when the run never ends.
\<close>

definition main ::
  "config \<Rightarrow> (char list \<Rightarrow> char list) \<Rightarrow> (nat \<Rightarrow> resolution) \<Rightarrow> nat \<Rightarrow> options
   \<Rightarrow> string option \<Rightarrow> ending option" where
  "main cfg sort_random dns now options answer =
     (if opt_help options then Some Returned
      else if falsy (opt_domain options) \<and> answer = None then Some (Exited 0 None)
      else
        let domain = opt_domain options;
            domain = (if falsy domain then answer else domain)
        in if falsy domain then Some (Exited 1 None)
           else
             (case domain of
                None \<Rightarrow> Some (Exited 1 None)
              | Some pattern \<Rightarrow>
                  if CHR ''.'' \<notin> set pattern then Some (Exited 1 None)
                  else
                    (case findAvailableDomains cfg sort_random dns now
                            (DomainFinder cfg options) pattern of
                       None \<Rightarrow> None
                     | Some (Inl e) \<Rightarrow> Some (Exited 1 None)
                     | Some (Inr w) \<Rightarrow> Some (Exited 0 (Some w)))))"

section \<open>Notions of the specification\<close>

text \<open>
  All ways of filling the markers of a pattern from an alphabet, leftmost marker
  outermost, and the relation between a pattern and a candidate that fills each of its
  markers with a character of the alphabet and keeps every other position.
\<close>

fun fills :: "char list \<Rightarrow> string \<Rightarrow> string list" where
  "fills chars [] = [[]]"
| "fills chars (x # xs) =
     (if x = CHR ''*'' then concat (map (\<lambda>c. map ((#) c) (fills chars xs)) chars)
      else map ((#) x) (fills chars xs))"

definition fits :: "char list \<Rightarrow> string \<Rightarrow> string \<Rightarrow> bool" where
  "fits chars pattern candidate =
     list_all2 (\<lambda>p c. if p = CHR ''*'' then c \<in> set chars else c = p) pattern candidate"

text \<open>The constructor's default argument \<^verbatim>\<open>options = {}\<close>, and no command line argument.\<close>

definition no_options :: options where
  "no_options =
     \<lparr>opt_domain = None, opt_concurrentChecks = None, opt_timeout = None,
      opt_outputFile = None, opt_help = False\<rparr>"

text \<open>
  The two kinds of failed lookup: the name does not exist or has no data
  (\<^verbatim>\<open>ENOTFOUND\<close>, \<^verbatim>\<open>ENODATA\<close>), and every other rejection.
\<close>

fun not_found :: "resolution \<Rightarrow> bool" where
  "not_found (Rejected t code) = (code = Some ''ENOTFOUND'' \<or> code = Some ''ENODATA'')"
| "not_found r = False"

fun other_failure :: "resolution \<Rightarrow> bool" where
  "other_failure (Rejected t code) = (\<not> (code = Some ''ENOTFOUND'' \<or> code = Some ''ENODATA''))"
| "other_failure r = False"

text \<open>
  The outcome of a probe in the specification's terms, read off what the call of
  \<^verbatim>\<open>isDomainAvailable\<close> returned and did to the finder: it is Available when the
  call returned true, an Error when it returned false and counted an error, and
  Unavailable otherwise.
\<close>

datatype outcome = Available | Unavailable | Error

definition outcome :: "finder \<Rightarrow> bool \<Rightarrow> finder \<Rightarrow> outcome" where
  "outcome f b f' =
     (if b then Available
      else if errors (stats f') = errors (stats f) + 1 then Error
      else Unavailable)"

text \<open>
  The slot of \<^verbatim>\<open>batchPromises\<close> that a resumed callback settles, apart from the
  rest of its step.
\<close>

fun slot :: "nat \<times> string \<times> resolution \<Rightarrow> (string \<times> bool) option list \<Rightarrow> (string \<times> bool) option list" where
  "slot (j, d, r) ps = ps[j := Some (d, not_found r)]"

text \<open>
  The domains discovered to be available by a sequence of resumed callbacks, in the order
  of their discovery: those whose lookup ended as not found.
\<close>

definition discovered :: "(nat \<times> string \<times> resolution) list \<Rightarrow> string list" where
  "discovered its = map (\<lambda>(j, domain, r). domain) (filter (\<lambda>(j, domain, r). not_found r) its)"

text \<open>
  The callbacks that resume in a run over the candidates from index \<open>i\<close> on with batch
  size \<open>c\<close>, in the order in which they resume: batch after batch, and within a batch
  as their lookups settle.
\<close>

function completions ::
  "nat \<Rightarrow> (nat \<Rightarrow> resolution) \<Rightarrow> string list \<Rightarrow> nat \<Rightarrow> (nat \<times> string \<times> resolution) list" where
  "completions c dns domains i =
     (if i < length domains \<and> 0 < c then
        let batch = take c (drop i domains)
        in arrivals batch (map dns [i..<i + length batch]) @ completions c dns domains (i + c)
      else [])"
  by pat_completeness auto
termination
  by (relation "measure (\<lambda>(c, dns, domains, i). length domains - i)") auto

declare completions.simps [simp del]

text \<open>
  A run to evaluate: three candidates in batches of two, whose lookups end as not found
  after 30 ms, resolved after 10 ms, and timed out after 20 ms; and four lookups that all
  end as not found.
\<close>

definition dns_example :: "nat \<Rightarrow> resolution" where
  "dns_example n =
     (if n = 0 then Rejected 30 (Some ''ENOTFOUND'')
      else if n = 1 then Fulfilled 10 [''192.0.2.1'']
      else Rejected 20 (Some ''ETIMEOUT''))"

definition world_example :: world where
  "world_example =
     \<lparr>this = (DomainFinder CONFIG (no_options\<lparr>opt_concurrentChecks := Some 2\<rparr>))
        \<lparr>stats := \<lparr>total = 3, checked = 0, available = 0, errors = 0, startTime = Some 0\<rparr>\<rparr>,
      writer = [], lookups = []\<rparr>"

definition hits_example :: "(nat \<times> string \<times> resolution) list" where
  "hits_example =
     [(0, ''a.com'', Rejected 5 (Some ''ENOTFOUND'')),
      (1, ''b.com'', Rejected 6 (Some ''ENODATA'')),
      (2, ''c.com'', Rejected 7 (Some ''ENOTFOUND'')),
      (3, ''d.com'', Rejected 8 (Some ''ENOTFOUND''))]"

section \<open>The candidate generator\<close>

lemma for_of_append:
  assumes "\<And>x ds. x \<in> set xs \<Longrightarrow> body x ds = Inr (ds @ g x)"
  shows "for_of xs body acc = Inr (acc @ concat (map g xs))"
  using assms by (induction xs arbitrary: acc) auto

lemma generateWithWildcard_fills:
  "index \<le> length domain \<Longrightarrow>
   generateWithWildcard chars domain index domains =
     Inr (domains @ map (\<lambda>s. take index domain @ s) (fills chars (drop index domain)))"
proof (induction chars domain index domains rule: generateWithWildcard.induct)
  case (1 chars domain index domains)
  show ?case
  proof (cases "index = length domain")
    case True
    then show ?thesis by (subst generateWithWildcard.simps) simp
  next
    case False
    with "1.prems" have lt: "index < length domain" by simp
    then have dr: "drop index domain = domain ! index # drop (Suc index) domain"
      by (simp add: Cons_nth_drop_Suc)
    show ?thesis
    proof (cases "domain ! index = CHR ''*''")
      case True
      have body: "generateWithWildcard chars (take index domain @ c # drop (index + 1) domain) (index + 1) ds
          = Inr (ds @ map (\<lambda>s. take index domain @ c # s) (fills chars (drop (Suc index) domain)))"
        if "c \<in> set chars" for c ds
      proof -
        let ?d = "take index domain @ c # drop (index + 1) domain"
        have len: "index + 1 \<le> length ?d" using lt by simp
        have tk: "take (index + 1) ?d = take index domain @ [c]" using lt by simp
        have dp: "drop (index + 1) ?d = drop (Suc index) domain" using lt by simp
        show ?thesis
          using "1.IH"(1) [OF False _ True that len, of ds] lt
          unfolding tk dp by simp
      qed
      have "generateWithWildcard chars domain index domains =
          for_of chars (\<lambda>char ds. generateWithWildcard chars
                        (take index domain @ char # drop (index + 1) domain) (index + 1) ds) domains"
        using False lt True by (subst generateWithWildcard.simps) simp
      also have "\<dots> = Inr (domains @ concat (map (\<lambda>c. map (\<lambda>s. take index domain @ c # s) (fills chars (drop (Suc index) domain))) chars))"
        by (rule for_of_append) (rule body)
      finally show ?thesis
        using True by (simp add: dr map_concat comp_def)
    next
      case nostar: False
      have "generateWithWildcard chars domain index domains =
            generateWithWildcard chars domain (index + 1) domains"
        using False lt nostar by (subst generateWithWildcard.simps) simp
      also have "\<dots> = Inr (domains @ map (\<lambda>s. take (index + 1) domain @ s) (fills chars (drop (index + 1) domain)))"
        using "1.IH"(2) [OF False _ nostar] lt by simp
      finally show ?thesis
        using nostar lt by (simp add: dr take_Suc_conv_app_nth comp_def)
    qed
  qed
qed

lemma length_fills: "length (fills chars xs) = length chars ^ count_list xs CHR ''*''"
proof (induction xs)
  case Nil
  then show ?case by simp
next
  case (Cons x xs)
  then show ?case
    by (simp add: length_concat comp_def sum_list_triv)
qed

lemma set_fills: "set (fills chars xs) = {c. fits chars xs c}"
proof (induction xs)
  case Nil
  then show ?case by (auto simp: fits_def)
next
  case (Cons x xs)
  then show ?case
    by (auto simp: fits_def list_all2_Cons1)
qed

lemma distinct_branches:
  "distinct chars \<Longrightarrow> distinct F \<Longrightarrow> distinct (concat (map (\<lambda>c. map ((#) c) F) chars))"
  by (induction chars) (auto simp: distinct_map)

lemma distinct_fills: "distinct chars \<Longrightarrow> distinct (fills chars xs)"
  by (induction xs) (auto simp: distinct_map distinct_branches)

lemma generateDomains_fills:
  "generateDomains cfg sort_random baseDomain randomize =
     Inr (if CHR ''*'' \<notin> set baseDomain then [baseDomain]
          else fills (if (case randomize of None \<Rightarrow> True | Some b \<Rightarrow> b)
                      then sort_random (ALPHABET cfg) else ALPHABET cfg) baseDomain)"
  by (simp add: generateDomains_def generateWithWildcard_fills Let_def)

lemma fills_no_marker: "CHR ''*'' \<notin> set xs \<Longrightarrow> fills chars xs = [xs]"
  by (induction xs) auto

text \<open>
  Claim C1. For a pattern with \<open>k\<close> markers and an alphabet of \<open>n\<close> distinct characters
  (which the random sort only rearranges), \<^verbatim>\<open>generateDomains\<close> returns \<open>n ^ k\<close>
  candidates, all distinct, and each is the pattern with every marker replaced by a
  character of the alphabet and every other position unchanged; this for each value of
  the argument \<open>randomize\<close>.
\<close>

theorem generateDomains_count_distinct_fit:
  assumes "distinct (ALPHABET cfg)"
    and "mset (sort_random (ALPHABET cfg)) = mset (ALPHABET cfg)"
  shows "\<exists>ds. generateDomains cfg sort_random pattern randomize = Inr ds
           \<and> length ds = length (ALPHABET cfg) ^ count_list pattern CHR ''*''
           \<and> distinct ds
           \<and> (\<forall>d \<in> set ds. fits (ALPHABET cfg) pattern d)"
proof -
  define chars where "chars = (if (case randomize of None \<Rightarrow> True | Some b \<Rightarrow> b)
                      then sort_random (ALPHABET cfg) else ALPHABET cfg)"
  have m: "mset chars = mset (ALPHABET cfg)"
    using assms(2) by (simp add: chars_def)
  have d: "distinct chars"
    using assms(1) m by (metis mset_eq_imp_distinct_iff)
  have l: "length chars = length (ALPHABET cfg)"
    using m by (rule mset_eq_length)
  have s: "set chars = set (ALPHABET cfg)"
    using m by (rule mset_eq_setD)
  have f: "fits chars pattern d = fits (ALPHABET cfg) pattern d" for d
    by (simp add: fits_def s)
  have g: "generateDomains cfg sort_random pattern randomize = Inr (fills chars pattern)"
    by (simp add: generateDomains_fills chars_def fills_no_marker)
  show ?thesis
    unfolding g using d l f by (simp add: length_fills distinct_fills set_fills)
qed

theorem generateDomains_count_distinct_fit_witness:
  "distinct (ALPHABET (CONFIG\<lparr>ALPHABET := ''ab''\<rparr>))
   \<and> mset (rev (ALPHABET (CONFIG\<lparr>ALPHABET := ''ab''\<rparr>))) = mset (ALPHABET (CONFIG\<lparr>ALPHABET := ''ab''\<rparr>))
   \<and> (\<exists>ds. generateDomains (CONFIG\<lparr>ALPHABET := ''ab''\<rparr>) rev ''t*t.*'' None = Inr ds
          \<and> length ds = 2 ^ 2 \<and> distinct ds
          \<and> (\<forall>d \<in> set ds. fits ''ab'' ''t*t.*'' d))"
proof -
  let ?cfg = "CONFIG\<lparr>ALPHABET := ''ab''\<rparr>"
  have d: "distinct (ALPHABET ?cfg)" by simp
  have m: "mset (rev (ALPHABET ?cfg)) = mset (ALPHABET ?cfg)" by simp
  show ?thesis
    using d m generateDomains_count_distinct_fit [of ?cfg rev "''t*t.*''" None]
    by (simp add: eval_nat_numeral)
qed

text \<open>
  Claim C9. A non-empty pattern without a marker yields the one candidate that is the
  pattern itself, whatever the alphabet, the random sort and the argument \<open>randomize\<close>.
\<close>

theorem generateDomains_no_wildcard:
  "baseDomain \<noteq> [] \<Longrightarrow> CHR ''*'' \<notin> set baseDomain
   \<Longrightarrow> generateDomains cfg sort_random baseDomain randomize = Inr [baseDomain]"
  by (simp add: generateDomains_def)

theorem generateDomains_no_wildcard_witness:
  "''example.com'' \<noteq> [] \<and> CHR ''*'' \<notin> set ''example.com''
   \<and> generateDomains CONFIG rev ''example.com'' (Some True) = Inr [''example.com'']"
  using generateDomains_no_wildcard [of "''example.com''" CONFIG rev "Some True"] by simp

text \<open>
  Claim C5, as stated, fails: on the empty pattern the generator raises nothing and
  returns the one candidate that is the empty string.
\<close>

theorem generateDomains_empty_pattern_returns:
  "generateDomains CONFIG id [] None = Inr [[]]"
  by (simp add: generateDomains_def)

text \<open>
  Claim C5, amended. The generator has no precondition and raises nothing: on the empty
  pattern it returns the empty string as the only candidate, and on a non-empty pattern
  without a dot it returns its candidates. It is \<^verbatim>\<open>main\<close> that handles a missing or
  empty pattern: it asks at the interactive prompt, and the process exits with code 1
  when the answer is empty, and ends with code 0 when the input ends without an answer.
  A non-empty pattern without a dot, given as an argument or at the prompt, makes the
  process exit with code 1. In each of these cases no finder has run.
\<close>

theorem empty_pattern_rejected_by_main:
  "generateDomains cfg sort_random [] randomize = Inr [[]]
   \<and> (\<not> opt_help options \<longrightarrow> falsy (opt_domain options)
        \<longrightarrow> main cfg sort_random dns now options (Some []) = Some (Exited 1 None)
            \<and> main cfg sort_random dns now options None = Some (Exited 0 None))
   \<and> (pattern \<noteq> [] \<longrightarrow> CHR ''.'' \<notin> set pattern
        \<longrightarrow> (\<exists>ds. generateDomains cfg sort_random pattern randomize = Inr ds)
            \<and> (\<not> opt_help options \<longrightarrow> opt_domain options = Some pattern
                 \<longrightarrow> main cfg sort_random dns now options answer = Some (Exited 1 None))
            \<and> (\<not> opt_help options \<longrightarrow> falsy (opt_domain options)
                 \<longrightarrow> main cfg sort_random dns now options (Some pattern) = Some (Exited 1 None)))"
  by (auto simp: generateDomains_fills main_def falsy_def Let_def generateDomains_def)

theorem empty_pattern_rejected_by_main_witness:
  "generateDomains CONFIG id [] None = Inr [[]]
   \<and> \<not> opt_help no_options \<and> falsy (opt_domain no_options)
   \<and> main CONFIG id (\<lambda>n. Unsettled) 0 no_options (Some []) = Some (Exited 1 None)
   \<and> main CONFIG id (\<lambda>n. Unsettled) 0 no_options None = Some (Exited 0 None)
   \<and> ''a*c'' \<noteq> [] \<and> CHR ''.'' \<notin> set ''a*c''
   \<and> (\<exists>ds. generateDomains CONFIG id ''a*c'' None = Inr ds)
   \<and> \<not> opt_help (no_options\<lparr>opt_domain := Some ''a*c''\<rparr>)
   \<and> opt_domain (no_options\<lparr>opt_domain := Some ''a*c''\<rparr>) = Some ''a*c''
   \<and> main CONFIG id (\<lambda>n. Unsettled) 0 (no_options\<lparr>opt_domain := Some ''a*c''\<rparr>) None
       = Some (Exited 1 None)
   \<and> main CONFIG id (\<lambda>n. Unsettled) 0 no_options (Some ''a*c'') = Some (Exited 1 None)"
  using empty_pattern_rejected_by_main [of CONFIG id None no_options "\<lambda>n. Unsettled" 0 "''a*c''" None]
    empty_pattern_rejected_by_main [of CONFIG id None "no_options\<lparr>opt_domain := Some ''a*c''\<rparr>" "\<lambda>n. Unsettled" 0 "''a*c''" None]
  by (simp add: no_options_def falsy_def)

section \<open>The prober\<close>

text \<open>
  Claim C2. A lookup that settles is classified: Unavailable when it is fulfilled;
  Available exactly when it is rejected with \<^verbatim>\<open>ENOTFOUND\<close> or \<^verbatim>\<open>ENODATA\<close>; an
  Error on every other rejection, which then counts one error, is reported as not
  available, and makes the callback of the batch write nothing to the output stream.
\<close>

theorem isDomainAvailable_classifies:
  assumes "settles r = Some t"
  shows "\<exists>b f'. isDomainAvailable (this w) domain r = Some (t, b, f')
           \<and> outcome (this w) b f' =
               (case r of
                  Fulfilled t' addresses \<Rightarrow> Unavailable
                | Rejected t' code \<Rightarrow>
                    if code = Some ''ENOTFOUND'' \<or> code = Some ''ENODATA'' then Available else Error
                | Unsettled \<Rightarrow> Error)
           \<and> (outcome (this w) b f' = Error \<longrightarrow>
                 \<not> b
               \<and> errors (stats f') = errors (stats (this w)) + 1
               \<and> writer (fst (check_resume (j, domain, r) (w, ps))) = writer w
               \<and> snd (check_resume (j, domain, r) (w, ps)) = ps[j := Some (domain, False)])"
  using assms
  by (cases r) (auto simp: outcome_def check_resume_def Let_def)

theorem isDomainAvailable_classifies_witness:
  "settles (Rejected 7 (Some ''ETIMEOUT'')) = Some 7
   \<and> (\<exists>b f'. isDomainAvailable (this \<lparr>this = DomainFinder CONFIG no_options, writer = [], lookups = []\<rparr>)
                 ''a.com'' (Rejected 7 (Some ''ETIMEOUT'')) = Some (7, b, f')
        \<and> outcome (DomainFinder CONFIG no_options) b f' = Error
        \<and> \<not> b \<and> errors (stats f') = 1
        \<and> writer (fst (check_resume (0, ''a.com'', Rejected 7 (Some ''ETIMEOUT''))
              (\<lparr>this = DomainFinder CONFIG no_options, writer = [], lookups = []\<rparr>, [None]))) = [])"
proof -
  have h: "settles (Rejected 7 (Some ''ETIMEOUT'')) = Some 7" by simp
  show ?thesis
    using isDomainAvailable_classifies [OF h, of "\<lparr>this = DomainFinder CONFIG no_options, writer = [], lookups = []\<rparr>" "''a.com''" 0 "[None]"]
    by (auto simp: DomainFinder_def)
qed

text \<open>
  Claim C3 asks that a probe end at its timeout with an Error. The code does not do so:
  with the default timeout of 5000 ms, a lookup that never settles leaves the probe
  waiting for ever, and a lookup fulfilled after a minute makes the probe return after
  that minute, with no error counted; with a timeout of 1000 ms, a lookup that the
  resolver gives up after 20 s makes the probe return after those 20 s.
\<close>

theorem isDomainAvailable_ignores_timeout:
  "timeout (DomainFinder CONFIG no_options) = 5000
   \<and> isDomainAvailable (DomainFinder CONFIG no_options) ''a.com'' Unsettled = None
   \<and> isDomainAvailable (DomainFinder CONFIG no_options) ''a.com'' (Fulfilled 60000 [''192.0.2.1''])
       = Some (60000, False, DomainFinder CONFIG no_options)
   \<and> timeout (DomainFinder CONFIG (no_options\<lparr>opt_timeout := Some 1000\<rparr>)) = 1000
   \<and> isDomainAvailable (DomainFinder CONFIG (no_options\<lparr>opt_timeout := Some 1000\<rparr>)) ''a.com''
         (Rejected 20000 (Some ''ETIMEOUT''))
       = Some (20000, False, (DomainFinder CONFIG (no_options\<lparr>opt_timeout := Some 1000\<rparr>))
            \<lparr>stats := \<lparr>total = 0, checked = 0, available = 0, errors = 1, startTime = None\<rparr>\<rparr>)"
  by (simp add: DomainFinder_def CONFIG_def no_options_def or_number_def)

text \<open>
  Claim C6, as stated, fails: on a rejection other than not-found the prober itself
  increments \<^verbatim>\<open>this.stats.errors\<close>.
\<close>

theorem isDomainAvailable_counts_errors_itself:
  "isDomainAvailable (DomainFinder CONFIG no_options) ''a.com'' (Rejected 7 (Some ''ETIMEOUT''))
     = Some (7, False, (DomainFinder CONFIG no_options)
          \<lparr>stats := \<lparr>total = 0, checked = 0, available = 0, errors = 1, startTime = None\<rparr>\<rparr>)
   \<and> errors (stats (DomainFinder CONFIG no_options)) = 0"
  by (simp add: DomainFinder_def)

text \<open>
  Claim C6, amended. On every lookup that settles, the prober returns, at that time,
  whether the lookup was rejected as not found, and changes nothing of the finder but the error counter, which it increments by one itself
  exactly on every other rejection. All other updates are the calling scheduler's: the
  callback, on the finder as the prober left it, increments checked by one and, exactly
  when the prober returned true, increments available, appends the domain and a newline
  to the output stream and pushes the domain onto the recent hits; it leaves total and the
  error counter as they are, and settles its promise with the domain and the boolean.
\<close>

theorem isDomainAvailable_frame:
  assumes "settles r = Some t"
  shows "\<exists>b f'. isDomainAvailable (this w) domain r = Some (t, b, f')
           \<and> f' = (this w)\<lparr>stats := (stats (this w))
                      \<lparr>errors := errors (stats (this w)) + (if other_failure r then 1 else 0)\<rparr>\<rparr>
           \<and> b = not_found r
           \<and> check_resume (j, domain, r) (w, ps) =
               (w\<lparr>this := f'\<lparr>stats := (stats f')
                                \<lparr>checked := checked (stats f') + 1,
                                 available := available (stats f') + (if b then 1 else 0)\<rparr>,
                            recentlyFound :=
                              (if b then remember domain (recentlyFound f')
                               else recentlyFound f')\<rparr>,
                  writer := writer w @ (if b then [domain @ [CHR 0x0A]] else [])\<rparr>,
                ps[j := Some (domain, b)])"
  using assms by (cases r) (auto simp: check_resume_def Let_def split: if_splits)

theorem isDomainAvailable_frame_witness:
  "settles (Rejected 7 (Some ''ENODATA'')) = Some 7
   \<and> isDomainAvailable (this world_example) ''a.com'' (Rejected 7 (Some ''ENODATA''))
       = Some (7, True, this world_example)
   \<and> not_found (Rejected 7 (Some ''ENODATA''))
   \<and> check_resume (0, ''a.com'', Rejected 7 (Some ''ENODATA'')) (world_example, [None]) =
        (world_example
           \<lparr>this := (this world_example)
              \<lparr>stats := (stats (this world_example))
                 \<lparr>checked := checked (stats (this world_example)) + 1,
                  available := available (stats (this world_example)) + 1\<rparr>,
               recentlyFound := remember ''a.com'' (recentlyFound (this world_example))\<rparr>,
            writer := writer world_example @ [''a.com'' @ [CHR 0x0A]]\<rparr>,
         [None][0 := Some (''a.com'', True)])
   \<and> checked (stats (this (fst (check_resume (0, ''a.com'', Rejected 7 (Some ''ENODATA''))
          (world_example, [None]))))) = 1
   \<and> available (stats (this (fst (check_resume (0, ''a.com'', Rejected 7 (Some ''ENODATA''))
          (world_example, [None]))))) = 1
   \<and> writer (fst (check_resume (0, ''a.com'', Rejected 7 (Some ''ENODATA''))
          (world_example, [None]))) = [''a.com'' @ [CHR 0x0A]]
   \<and> recentlyFound (this (fst (check_resume (0, ''a.com'', Rejected 7 (Some ''ENODATA''))
          (world_example, [None])))) = [''a.com'']"
proof -
  let ?r = "Rejected 7 (Some ''ENODATA'')"
  have h: "settles ?r = Some 7" by simp
  from isDomainAvailable_frame [OF h, of world_example "''a.com''" 0 "[None]"]
  obtain b f' where
    p: "isDomainAvailable (this world_example) ''a.com'' ?r = Some (7, b, f')"
    and f: "f' = (this world_example)\<lparr>stats := (stats (this world_example))
                   \<lparr>errors := errors (stats (this world_example))
                      + (if other_failure ?r then 1 else 0)\<rparr>\<rparr>"
    and b: "b = not_found ?r"
    and c: "check_resume (0, ''a.com'', ?r) (world_example, [None]) =
               (world_example\<lparr>this := f'\<lparr>stats := (stats f')
                                \<lparr>checked := checked (stats f') + 1,
                                 available := available (stats f') + (if b then 1 else 0)\<rparr>,
                            recentlyFound :=
                              (if b then remember ''a.com'' (recentlyFound f')
                               else recentlyFound f')\<rparr>,
                  writer := writer world_example @ (if b then [''a.com'' @ [CHR 0x0A]] else [])\<rparr>,
                [None][0 := Some (''a.com'', b)])"
    by blast
  have b': "b = True" using b by simp
  have f': "f' = this world_example" using f by simp
  have p': "isDomainAvailable (this world_example) ''a.com'' ?r = Some (7, True, this world_example)"
    using p unfolding b' f' .
  have n: "not_found ?r" by simp
  have c': "check_resume (0, ''a.com'', ?r) (world_example, [None]) =
        (world_example
           \<lparr>this := (this world_example)
              \<lparr>stats := (stats (this world_example))
                 \<lparr>checked := checked (stats (this world_example)) + 1,
                  available := available (stats (this world_example)) + 1\<rparr>,
               recentlyFound := remember ''a.com'' (recentlyFound (this world_example))\<rparr>,
            writer := writer world_example @ [''a.com'' @ [CHR 0x0A]]\<rparr>,
         [None][0 := Some (''a.com'', True)])"
    using c unfolding b' f' by simp
  have e1: "checked (stats (this (fst (check_resume (0, ''a.com'', ?r) (world_example, [None]))))) = 1"
    and e2: "available (stats (this (fst (check_resume (0, ''a.com'', ?r) (world_example, [None]))))) = 1"
    and e3: "writer (fst (check_resume (0, ''a.com'', ?r) (world_example, [None])))
               = [''a.com'' @ [CHR 0x0A]]"
    and e4: "recentlyFound (this (fst (check_resume (0, ''a.com'', ?r) (world_example, [None]))))
               = [''a.com'']"
    unfolding c' by (simp_all add: world_example_def DomainFinder_def remember_def)
  show ?thesis by (intro conjI h p' n c' e1 e2 e3 e4)
qed

section \<open>The scheduler\<close>

subsection \<open>One batch\<close>

lemma displayProgress_ok:
  assumes "checked (stats f) \<le> total (stats f)"
  shows "displayProgress f = Inr ()"
proof (cases "total (stats f) = 0")
  case True
  with assms show ?thesis by (simp add: displayProgress_def)
next
  case False
  define x :: rat where
    "x = (of_nat (checked (stats f)) / of_nat (total (stats f))) * 100 / 100 * of_int 40"
  have q: "(of_nat (checked (stats f)) / of_nat (total (stats f)) :: rat) \<le> 1"
    using assms False by (simp add: divide_le_eq_1)
  have q0: "0 \<le> (of_nat (checked (stats f)) / of_nat (total (stats f)) :: rat)"
    by simp
  have xq: "x = (of_nat (checked (stats f)) / of_nat (total (stats f))) * 40"
    by (simp add: x_def)
  have x0: "0 \<le> x" using q0 by (simp add: x_def)
  have "x \<le> 1 * 40"
    unfolding xq by (rule mult_right_mono) (use q in simp_all)
  then have x40: "x \<le> 40" by simp
  have "round (0 :: rat) \<le> round x" using x0 by (rule round_mono)
  moreover have "round x \<le> round (40 :: rat)" using x40 by (rule round_mono)
  ultimately have "0 \<le> round x" "round x \<le> 40" by simp_all
  then show ?thesis
    using False unfolding displayProgress_def Let_def x_def [symmetric] by simp
qed

lemma check_resume_settled:
  assumes "settles r \<noteq> None"
  shows "\<exists>w'. check_resume (j, d, r) (w, ps) = (w', ps[j := Some (d, not_found r)])
           \<and> checked (stats (this w')) = checked (stats (this w)) + 1
           \<and> errors (stats (this w')) = errors (stats (this w)) + (if other_failure r then 1 else 0)
           \<and> total (stats (this w')) = total (stats (this w))
           \<and> lookups w' = lookups w"
  using assms by (cases r) (auto simp: check_resume_def Let_def)

lemma resumes_settled:
  assumes "\<forall>(j, d, r) \<in> set its. settles r \<noteq> None"
  shows "\<exists>w'. fold check_resume its (w, ps) = (w', fold slot its ps)
           \<and> checked (stats (this w')) = checked (stats (this w)) + length its
           \<and> errors (stats (this w')) = errors (stats (this w))
                 + length (filter (\<lambda>(j, d, r). other_failure r) its)
           \<and> total (stats (this w')) = total (stats (this w))
           \<and> lookups w' = lookups w"
  using assms
proof (induction its arbitrary: w ps)
  case Nil
  then show ?case by simp
next
  case (Cons item its)
  obtain j d r where item: "item = (j, d, r)" by (cases item)
  with Cons.prems have "settles r \<noteq> None" by simp
  from check_resume_settled [OF this, of j d w ps]
  obtain w1 where w1: "check_resume (j, d, r) (w, ps) = (w1, ps[j := Some (d, not_found r)])"
    "checked (stats (this w1)) = checked (stats (this w)) + 1"
    "errors (stats (this w1)) = errors (stats (this w)) + (if other_failure r then 1 else 0)"
    "total (stats (this w1)) = total (stats (this w))"
    "lookups w1 = lookups w"
    by blast
  from Cons.prems have "\<forall>(j, d, r) \<in> set its. settles r \<noteq> None" by simp
  from Cons.IH [OF this, of w1 "ps[j := Some (d, not_found r)]"]
  obtain w' where w': "fold check_resume its (w1, ps[j := Some (d, not_found r)]) = (w', fold slot its (ps[j := Some (d, not_found r)]))"
    "checked (stats (this w')) = checked (stats (this w1)) + length its"
    "errors (stats (this w')) = errors (stats (this w1)) + length (filter (\<lambda>(j, d, r). other_failure r) its)"
    "total (stats (this w')) = total (stats (this w1))"
    "lookups w' = lookups w1"
    by blast
  show ?case
    using w1 w' by (simp add: item)
qed

lemma length_slots: "length (fold slot its ps) = length ps"
  by (induction its arbitrary: ps) auto

lemma nth_slots:
  assumes "\<forall>(j, d, r) \<in> set its. d = batch ! j \<and> r = rs ! j" and "k < length ps"
  shows "fold slot its ps ! k =
           (if k \<in> fst ` set its then Some (batch ! k, not_found (rs ! k)) else ps ! k)"
  using assms
proof (induction its arbitrary: ps)
  case Nil
  then show ?case by simp
next
  case (Cons item its)
  obtain j d r where item: "item = (j, d, r)" by (cases item)
  from Cons.prems have dr: "d = batch ! j" "r = rs ! j" by (simp_all add: item)
  from Cons.prems have rest: "\<forall>(j, d, r) \<in> set its. d = batch ! j \<and> r = rs ! j" by simp
  have len: "k < length (slot item ps)" using Cons.prems(2) by (simp add: item)
  have "fold slot (item # its) ps ! k = fold slot its (slot item ps) ! k" by simp
  also have "\<dots> = (if k \<in> fst ` set its then Some (batch ! k, not_found (rs ! k))
                     else slot item ps ! k)"
    by (rule Cons.IH [OF rest len])
  also have "\<dots> = (if k \<in> fst ` set (item # its) then Some (batch ! k, not_found (rs ! k))
                     else ps ! k)"
    using Cons.prems(2) dr by (auto simp: item nth_list_update)
  finally show ?case .
qed

lemma those_eq_Some: "those xs = Some ys \<longleftrightarrow> xs = map Some ys"
  by (induction xs arbitrary: ys) (auto split: option.splits)

lemma set_arrivals:
  "set (arrivals batch rs) =
     {x \<in> set (zip [0..<length batch] (zip batch rs)). settles (snd (snd x)) \<noteq> None}"
  by (auto simp: arrivals_def)

lemma zip_item:
  assumes "length rs = length batch"
  shows "(j, d, r) \<in> set (zip [0..<length batch] (zip batch rs))
         \<longleftrightarrow> j < length batch \<and> d = batch ! j \<and> r = rs ! j"
proof
  assume "(j, d, r) \<in> set (zip [0..<length batch] (zip batch rs))"
  then show "j < length batch \<and> d = batch ! j \<and> r = rs ! j"
    using assms by (auto simp: set_zip)
next
  assume a: "j < length batch \<and> d = batch ! j \<and> r = rs ! j"
  then have "(j, d, r) = zip [0..<length batch] (zip batch rs) ! j"
    using assms by simp
  moreover have "j < length (zip [0..<length batch] (zip batch rs))"
    using a assms by simp
  ultimately show "(j, d, r) \<in> set (zip [0..<length batch] (zip batch rs))"
    by (metis nth_mem)
qed

lemma fold_check_start:
  "stats (this (fold check_start batch w)) = stats (this w)
   \<and> recentlyFound (this (fold check_start batch w)) = recentlyFound (this w)
   \<and> writer (fold check_start batch w) = writer w
   \<and> lookups (fold check_start batch w) = lookups w"
  by (induction batch arbitrary: w) (simp_all add: check_start_def)

lemma map_snd_snd_zip:
  assumes "length rs = length batch"
  shows "map (\<lambda>(j, d, r). r) (zip [0..<length batch] (zip batch rs)) = rs"
proof -
  have "map (\<lambda>(j, d, r). r) (zip [0..<length batch] (zip batch rs))
        = map snd (map snd (zip [0..<length batch] (zip batch rs)))"
    by (simp add: case_prod_unfold)
  also have "\<dots> = map snd (zip batch rs)"
    using assms by (simp add: map_snd_zip del: map_map)
  also have "\<dots> = rs"
    using assms by (simp add: map_snd_zip)
  finally show ?thesis .
qed

lemma count_arrivals:
  assumes "length rs = length batch"
  shows "length (filter (\<lambda>(j, d, r). P r) (arrivals batch rs))
         = length (filter (\<lambda>r. settles r \<noteq> None \<and> P r) rs)"
proof -
  let ?zs = "zip [0..<length batch] (zip batch rs)"
  have "length (filter (\<lambda>(j, d, r). P r) (arrivals batch rs))
        = length (filter (\<lambda>(j, d, r). P r) (filter (\<lambda>(j, d, r). settles r \<noteq> None) ?zs))"
    by (simp add: arrivals_def filter_sort)
  also have "\<dots> = length (filter ((\<lambda>r. settles r \<noteq> None \<and> P r) \<circ> (\<lambda>(j, d, r). r)) ?zs)"
    by (simp add: case_prod_unfold comp_def conj_commute)
  also have "\<dots> = length (filter (\<lambda>r. settles r \<noteq> None \<and> P r) (map (\<lambda>(j, d, r). r) ?zs))"
    by (simp add: filter_map)
  finally show ?thesis
    by (simp add: map_snd_snd_zip [OF assms])
qed

lemma length_arrivals:
  assumes "length rs = length batch" and "\<forall>r \<in> set rs. settles r \<noteq> None"
  shows "length (arrivals batch rs) = length batch"
proof -
  have "length (arrivals batch rs) = length (filter (\<lambda>(j, d, r). True) (arrivals batch rs))"
    by simp
  also have "\<dots> = length (filter (\<lambda>r. settles r \<noteq> None \<and> True) rs)"
    by (rule count_arrivals [OF assms(1)])
  also have "\<dots> = length rs"
    using assms(2) by simp
  finally show ?thesis using assms(1) by simp
qed

lemma arrivals_items:
  assumes "length rs = length batch"
  shows "(j, d, r) \<in> set (arrivals batch rs)
         \<longleftrightarrow> j < length batch \<and> d = batch ! j \<and> r = rs ! j \<and> settles r \<noteq> None"
  using zip_item [OF assms] by (auto simp: set_arrivals)

lemma slots_arrivals:
  assumes len: "length rs = length batch" and k: "k < length batch"
  shows "fold slot (arrivals batch rs) (replicate (length batch) None) ! k
         = (if settles (rs ! k) \<noteq> None then Some (batch ! k, not_found (rs ! k)) else None)"
proof -
  have c: "\<forall>(j, d, r) \<in> set (arrivals batch rs). d = batch ! j \<and> r = rs ! j"
    using arrivals_items [OF len] by auto
  have "k \<in> fst ` set (arrivals batch rs) \<longleftrightarrow> settles (rs ! k) \<noteq> None"
  proof
    assume "k \<in> fst ` set (arrivals batch rs)"
    then obtain d r where "(k, d, r) \<in> set (arrivals batch rs)" by auto
    then show "settles (rs ! k) \<noteq> None"
      using arrivals_items [OF len, of k d r] by blast
  next
    assume "settles (rs ! k) \<noteq> None"
    then have "(k, batch ! k, rs ! k) \<in> set (arrivals batch rs)"
      using k arrivals_items [OF len, of k "batch ! k" "rs ! k"] by blast
    then have "fst (k, batch ! k, rs ! k) \<in> fst ` set (arrivals batch rs)"
      by (rule imageI)
    then show "k \<in> fst ` set (arrivals batch rs)" by simp
  qed
  then show ?thesis
    using nth_slots [OF c, of k "replicate (length batch) None"] k by simp
qed

lemma run_batch_unfold:
  "\<exists>w3. fold check_resume (arrivals batch rs)
           ((fold check_start batch w)\<lparr>lookups := lookups (fold check_start batch w) @ [batch]\<rparr>,
            replicate (length batch) None)
          = (w3, fold slot (arrivals batch rs) (replicate (length batch) None))
        \<and> run_batch batch rs w
            = map_option (Pair w3) (those (fold slot (arrivals batch rs) (replicate (length batch) None)))
        \<and> checked (stats (this w3)) = checked (stats (this w)) + length (arrivals batch rs)
        \<and> errors (stats (this w3)) = errors (stats (this w))
             + length (filter (\<lambda>(j, d, r). other_failure r) (arrivals batch rs))
        \<and> total (stats (this w3)) = total (stats (this w))
        \<and> lookups w3 = lookups w @ [batch]"
proof -
  let ?w2 = "(fold check_start batch w)\<lparr>lookups := lookups (fold check_start batch w) @ [batch]\<rparr>"
  have s: "\<forall>(j, d, r) \<in> set (arrivals batch rs). settles r \<noteq> None"
    by (auto simp: set_arrivals)
  from resumes_settled [OF s, of ?w2 "replicate (length batch) None"]
  obtain w3 where w3:
    "fold check_resume (arrivals batch rs) (?w2, replicate (length batch) None)
       = (w3, fold slot (arrivals batch rs) (replicate (length batch) None))"
    "checked (stats (this w3)) = checked (stats (this ?w2)) + length (arrivals batch rs)"
    "errors (stats (this w3)) = errors (stats (this ?w2))
       + length (filter (\<lambda>(j, d, r). other_failure r) (arrivals batch rs))"
    "total (stats (this w3)) = total (stats (this ?w2))"
    "lookups w3 = lookups ?w2"
    by blast
  have "run_batch batch rs w
          = map_option (Pair w3) (those (fold slot (arrivals batch rs) (replicate (length batch) None)))"
    using w3(1) by (simp add: run_batch_def Let_def)
  then show ?thesis
    using w3 by (auto simp: fold_check_start)
qed

lemma run_batch_Some:
  assumes len: "length rs = length batch"
    and rb: "run_batch batch rs w = Some (w', res)"
  shows "(\<forall>r \<in> set rs. settles r \<noteq> None)
       \<and> res = map (\<lambda>k. (batch ! k, not_found (rs ! k))) [0..<length batch]
       \<and> checked (stats (this w')) = checked (stats (this w)) + length batch
       \<and> errors (stats (this w')) = errors (stats (this w)) + length (filter other_failure rs)
       \<and> total (stats (this w')) = total (stats (this w))
       \<and> lookups w' = lookups w @ [batch]"
proof -
  let ?ps = "fold slot (arrivals batch rs) (replicate (length batch) None)"
  from run_batch_unfold [of batch rs w] obtain w3 where w3:
    "run_batch batch rs w = map_option (Pair w3) (those ?ps)"
    "checked (stats (this w3)) = checked (stats (this w)) + length (arrivals batch rs)"
    "errors (stats (this w3)) = errors (stats (this w))
       + length (filter (\<lambda>(j, d, r). other_failure r) (arrivals batch rs))"
    "total (stats (this w3)) = total (stats (this w))"
    "lookups w3 = lookups w @ [batch]"
    by blast
  from rb w3(1) have w': "w' = w3" and th: "those ?ps = Some res" by auto
  from th have ps: "?ps = map Some res" by (simp add: those_eq_Some)
  have lres: "length res = length batch"
    using arg_cong [OF ps, of length] by (simp add: length_slots)
  have nth: "settles (rs ! k) \<noteq> None \<and> res ! k = (batch ! k, not_found (rs ! k))"
    if "k < length batch" for k
  proof -
    have "?ps ! k = Some (res ! k)" using ps that lres by simp
    with slots_arrivals [OF len that] show ?thesis by (auto split: if_splits)
  qed
  have all: "\<forall>r \<in> set rs. settles r \<noteq> None"
    using nth len by (auto simp: in_set_conv_nth)
  have res: "res = map (\<lambda>k. (batch ! k, not_found (rs ! k))) [0..<length batch]"
    using nth lres by (intro nth_equalityI) simp_all
  have oth: "length (filter (\<lambda>(j, d, r). other_failure r) (arrivals batch rs))
             = length (filter other_failure rs)"
  proof -
    have "filter (\<lambda>r. settles r \<noteq> None \<and> other_failure r) rs = filter other_failure rs"
      using all by (intro filter_cong) auto
    with count_arrivals [OF len, of other_failure] show ?thesis by simp
  qed
  show ?thesis
    using all res w3 w' oth length_arrivals [OF len all] by simp
qed

lemma run_batch_settled:
  assumes len: "length rs = length batch" and all: "\<forall>r \<in> set rs. settles r \<noteq> None"
  shows "\<exists>w' res. run_batch batch rs w = Some (w', res)"
proof -
  let ?ps = "fold slot (arrivals batch rs) (replicate (length batch) None)"
  let ?res = "map (\<lambda>k. (batch ! k, not_found (rs ! k))) [0..<length batch]"
  have "?ps = map Some ?res"
  proof (intro nth_equalityI)
    show "length ?ps = length (map Some ?res)" by (simp add: length_slots)
  next
    fix k assume "k < length ?ps"
    then have k: "k < length batch" by (simp add: length_slots)
    then have "settles (rs ! k) \<noteq> None" using all len by simp
    with slots_arrivals [OF len k] k show "?ps ! k = map Some ?res ! k" by simp
  qed
  then have "those ?ps = Some ?res" by (simp add: those_eq_Some)
  with run_batch_unfold [of batch rs w] show ?thesis by auto
qed

subsection \<open>The loop\<close>

lemma loop_done:
  "\<not> i < length domains
   \<Longrightarrow> processDomainBatch_loop dns domains i w results = Some (Inr (w, results))"
  by (subst processDomainBatch_loop.simps) simp

lemma loop_step:
  assumes "i < length domains"
    and "processDomainBatch_loop dns domains i w results = Some (Inr (w', results'))"
  shows "\<exists>w1 br. concurrentChecks (this w) \<noteq> 0
           \<and> run_batch (take (concurrentChecks (this w)) (drop i domains))
                (map dns [i..<i + length (take (concurrentChecks (this w)) (drop i domains))]) w
               = Some (w1, br)
           \<and> processDomainBatch_loop dns domains (i + concurrentChecks (this w)) w1 (results @ br)
               = Some (Inr (w', results'))"
proof -
  have c: "concurrentChecks (this w) \<noteq> 0"
    using assms by (subst (asm) processDomainBatch_loop.simps) (auto split: if_splits)
  let ?batch = "take (concurrentChecks (this w)) (drop i domains)"
  obtain w1 br where rb: "run_batch ?batch (map dns [i..<i + length ?batch]) w = Some (w1, br)"
    using assms c
    by (subst (asm) processDomainBatch_loop.simps) (auto simp: Let_def split: option.splits)
  have cc: "concurrentChecks (this w1) = concurrentChecks (this w)"
    using rb by (rule concurrentChecks_run_batch)
  have "processDomainBatch_loop dns domains (i + concurrentChecks (this w)) w1 (results @ br)
          = Some (Inr (w', results'))"
    using assms c rb cc
    by (subst (asm) processDomainBatch_loop.simps)
       (auto simp: Let_def split: sum.splits if_splits)
  with c rb show ?thesis by blast
qed

lemma range_split:
  fixes i c n :: nat
  assumes "i < n"
  shows "[i..<i + min c (n - i)] @ [i + c..<n] = [i..<n]"
proof (cases "c \<le> n - i")
  case True
  then have n: "i + c + (n - (i + c)) = n" using assms by simp
  have "[i..<i + c + (n - (i + c))] = [i..<i + c] @ [i + c..<i + c + (n - (i + c))]"
    by (rule upt_add_eq_append) simp
  then have "[i..<n] = [i..<i + c] @ [i + c..<n]" unfolding n .
  with True show ?thesis by (simp add: min_def)
next
  case False
  then show ?thesis using assms by (simp add: min_def)
qed

lemma loop_facts:
  "processDomainBatch_loop dns domains i w results = Some (Inr (w', results'))
   \<Longrightarrow> (\<forall>k \<in> set [i..<length domains]. settles (dns k) \<noteq> None)
     \<and> results' = results @ map (\<lambda>k. (domains ! k, not_found (dns k))) [i..<length domains]
     \<and> checked (stats (this w')) = checked (stats (this w)) + (length domains - i)
     \<and> errors (stats (this w')) = errors (stats (this w))
          + length (filter other_failure (map dns [i..<length domains]))
     \<and> total (stats (this w')) = total (stats (this w))
     \<and> concurrentChecks (this w') = concurrentChecks (this w)
     \<and> (\<exists>bs. lookups w' = lookups w @ bs \<and> concat bs = drop i domains
            \<and> (\<forall>b \<in> set bs. b \<noteq> [] \<and> length b \<le> concurrentChecks (this w)))"
proof (induction "length domains - i" arbitrary: i w results rule: less_induct)
  case less
  show ?case
  proof (cases "i < length domains")
    case False
    with less.prems have "w' = w" "results' = results" by (simp_all add: loop_done)
    with False show ?thesis by simp
  next
    case True
    let ?c = "concurrentChecks (this w)"
    let ?batch = "take ?c (drop i domains)"
    let ?rs = "map dns [i..<i + length ?batch]"
    let ?g = "\<lambda>k. (domains ! k, not_found (dns k))"
    from loop_step [OF True less.prems] obtain w1 br where
      c: "?c \<noteq> 0" and rb: "run_batch ?batch ?rs w = Some (w1, br)"
      and rest: "processDomainBatch_loop dns domains (i + ?c) w1 (results @ br) = Some (Inr (w', results'))"
      by blast
    have lb: "length ?batch = min ?c (length domains - i)" by simp
    have len: "length ?rs = length ?batch" by simp
    note b = run_batch_Some [OF len rb]
    have cc: "concurrentChecks (this w1) = ?c" using rb by (rule concurrentChecks_run_batch)
    have "length domains - (i + ?c) < length domains - i" using True c by simp
    note ih = less.hyps [OF this rest]
    have split: "[i..<i + length ?batch] @ [i + ?c..<length domains] = [i..<length domains]"
      unfolding lb by (rule range_split [OF True])
    have br: "br = map ?g [i..<i + length ?batch]"
    proof -
      have "br = map (\<lambda>k. (?batch ! k, not_found (?rs ! k))) [0..<length ?batch]" using b by blast
      also have "\<dots> = map (\<lambda>k. ?g (i + k)) [0..<length ?batch]"
        by (rule map_cong) (auto simp: add.commute)
      also have "\<dots> = map ?g (map (\<lambda>k. i + k) [0..<length ?batch])" by simp
      also have "map (\<lambda>k. i + k) [0..<length ?batch] = [i..<i + length ?batch]"
        by (simp add: map_add_upt add.commute)
      finally show ?thesis .
    qed
    have s1: "\<forall>k \<in> set [i..<length domains]. settles (dns k) \<noteq> None"
    proof -
      have "\<forall>k \<in> set [i..<i + length ?batch]. settles (dns k) \<noteq> None" using b by auto
      moreover have "\<forall>k \<in> set [i + ?c..<length domains]. settles (dns k) \<noteq> None" using ih by blast
      ultimately have "\<forall>k \<in> set ([i..<i + length ?batch] @ [i + ?c..<length domains]). settles (dns k) \<noteq> None"
        by (simp only: set_append ball_Un)
      then show ?thesis unfolding split .
    qed
    have s2: "results' = results @ map ?g [i..<length domains]"
    proof -
      have "results' = (results @ br) @ map ?g [i + ?c..<length domains]" using ih by blast
      also have "\<dots> = results @ map ?g ([i..<i + length ?batch] @ [i + ?c..<length domains])"
        by (simp add: br)
      finally show ?thesis unfolding split .
    qed
    have s3: "checked (stats (this w')) = checked (stats (this w)) + (length domains - i)"
    proof -
      have "checked (stats (this w')) = checked (stats (this w1)) + (length domains - (i + ?c))"
        using ih by blast
      moreover have "checked (stats (this w1)) = checked (stats (this w)) + length ?batch"
        using b by blast
      ultimately show ?thesis using True by (simp add: min_def)
    qed
    have s4: "errors (stats (this w')) = errors (stats (this w))
                + length (filter other_failure (map dns [i..<length domains]))"
    proof -
      have "errors (stats (this w')) = errors (stats (this w1))
              + length (filter other_failure (map dns [i + ?c..<length domains]))"
        using ih by blast
      moreover have "errors (stats (this w1)) = errors (stats (this w))
              + length (filter other_failure ?rs)"
        using b by blast
      ultimately have "errors (stats (this w')) = errors (stats (this w))
              + length (filter other_failure
                  (map dns ([i..<i + length ?batch] @ [i + ?c..<length domains])))"
        by simp
      then show ?thesis unfolding split .
    qed
    have s5: "total (stats (this w')) = total (stats (this w))"
    proof -
      have "total (stats (this w')) = total (stats (this w1))" using ih by blast
      moreover have "total (stats (this w1)) = total (stats (this w))" using b by blast
      ultimately show ?thesis by simp
    qed
    have s6: "concurrentChecks (this w') = ?c"
    proof -
      have "concurrentChecks (this w') = concurrentChecks (this w1)" using ih by blast
      then show ?thesis using cc by simp
    qed
    have s7: "\<exists>bs. lookups w' = lookups w @ bs \<and> concat bs = drop i domains
            \<and> (\<forall>b \<in> set bs. b \<noteq> [] \<and> length b \<le> ?c)"
    proof -
      from ih obtain bs where bs: "lookups w' = lookups w1 @ bs"
        "concat bs = drop (i + ?c) domains"
        "\<forall>b \<in> set bs. b \<noteq> [] \<and> length b \<le> concurrentChecks (this w1)"
        by blast
      have l1: "lookups w1 = lookups w @ [?batch]" using b by blast
      have ne: "?batch \<noteq> []" using True c by simp
      have d: "drop (i + ?c) domains = drop ?c (drop i domains)"
        by (simp add: add.commute)
      have "concat (?batch # bs) = take ?c (drop i domains) @ drop ?c (drop i domains)"
        unfolding concat.simps bs(2) d ..
      then have cat: "concat (?batch # bs) = drop i domains"
        by (simp only: append_take_drop_id)
      have "lookups w' = lookups w @ (?batch # bs)" using bs(1) l1 by simp
      moreover have "\<forall>b \<in> set (?batch # bs). b \<noteq> [] \<and> length b \<le> ?c"
        using bs(3) cc ne by simp
      ultimately show ?thesis using cat by blast
    qed
    show ?thesis using s1 s2 s3 s4 s5 s6 s7 by blast
  qed
qed

lemma loop_completes:
  assumes "0 < concurrentChecks (this w)"
    and "\<forall>k \<in> set [i..<length domains]. settles (dns k) \<noteq> None"
    and "checked (stats (this w)) + (length domains - i) \<le> total (stats (this w))"
  shows "\<exists>w' results'. processDomainBatch_loop dns domains i w results = Some (Inr (w', results'))"
  using assms
proof (induction "length domains - i" arbitrary: i w results rule: less_induct)
  case less
  show ?case
  proof (cases "i < length domains")
    case False
    then show ?thesis by (simp add: loop_done)
  next
    case True
    let ?c = "concurrentChecks (this w)"
    let ?batch = "take ?c (drop i domains)"
    let ?rs = "map dns [i..<i + length ?batch]"
    have len: "length ?rs = length ?batch" by simp
    have "\<forall>r \<in> set ?rs. settles r \<noteq> None" using less.prems(2) by auto
    from run_batch_settled [OF len this, of w] obtain w1 br
      where rb: "run_batch ?batch ?rs w = Some (w1, br)" by blast
    note b = run_batch_Some [OF len rb]
    have cc: "concurrentChecks (this w1) = ?c" using rb by (rule concurrentChecks_run_batch)
    have ch: "checked (stats (this w1)) = checked (stats (this w)) + length ?batch" using b by blast
    have tt: "total (stats (this w1)) = total (stats (this w))" using b by blast
    have le: "checked (stats (this w1)) \<le> total (stats (this w1))"
      using ch tt less.prems(3) True by (simp add: min_def split: if_splits)
    have dp: "displayProgress (this w1) = Inr ()" using le by (rule displayProgress_ok)
    have m: "length domains - (i + ?c) < length domains - i" using True less.prems(1) by simp
    have p1: "0 < concurrentChecks (this w1)" using cc less.prems(1) by simp
    have p2: "\<forall>k \<in> set [i + ?c..<length domains]. settles (dns k) \<noteq> None"
      using less.prems(2) by simp
    have p3: "checked (stats (this w1)) + (length domains - (i + ?c)) \<le> total (stats (this w1))"
      using ch tt less.prems(3) True by (simp add: min_def split: if_splits)
    from less.hyps [OF m p1 p2 p3, of "results @ br"] obtain w' results' where
      "processDomainBatch_loop dns domains (i + ?c) w1 (results @ br) = Some (Inr (w', results'))"
      by blast
    then have "processDomainBatch_loop dns domains i w results = Some (Inr (w', results'))"
      using True less.prems(1) rb cc dp
      by (subst processDomainBatch_loop.simps) (simp add: Let_def)
    then show ?thesis by blast
  qed
qed

lemma example_run:
  "processDomainBatch dns_example [''a.com'', ''b.com'', ''c.com''] world_example
      = Some (Inr (\<lparr>this = \<lparr>concurrentChecks = 2, timeout = 5000, outputFile = ''available_domains.txt'',
            stats = \<lparr>total = 3, checked = 3, available = 1, errors = 1, startTime = Some 0\<rparr>,
            recentlyFound = [''a.com''], currentlyChecking = ''c.com''\<rparr>,
            writer = [''a.com'' @ [CHR 0x0A]], lookups = [[''a.com'', ''b.com''], [''c.com'']]\<rparr>,
            [(''a.com'', True), (''b.com'', False), (''c.com'', False)]))"
  by code_simp

text \<open>
  Claim C8. Whatever the lookups do, provided each settles (fulfilled, or rejected with
  any error), a run with a batch size of at least 1, on statistics that leave room for the
  candidates, completes normally: no rejection of a lookup makes it throw or stop early.
  It yields one result per candidate, counts every candidate as checked, and counts
  exactly the rejections other than not-found as errors.
\<close>

theorem processDomainBatch_contains_failures:
  assumes "1 \<le> concurrentChecks (this w)"
    and "\<forall>k < length domains. settles (dns k) \<noteq> None"
    and "checked (stats (this w)) + length domains \<le> total (stats (this w))"
  shows "\<exists>w' results. processDomainBatch dns domains w = Some (Inr (w', results))
           \<and> results = map (\<lambda>k. (domains ! k, not_found (dns k))) [0..<length domains]
           \<and> checked (stats (this w')) = checked (stats (this w)) + length domains
           \<and> errors (stats (this w')) = errors (stats (this w))
                + length (filter other_failure (map dns [0..<length domains]))"
proof -
  have c: "0 < concurrentChecks (this w)" using assms(1) by simp
  have s: "\<forall>k \<in> set [0..<length domains]. settles (dns k) \<noteq> None" using assms(2) by simp
  have t: "checked (stats (this w)) + (length domains - 0) \<le> total (stats (this w))"
    using assms(3) by simp
  from loop_completes [OF c s t, of "[]"] obtain w' results where
    r: "processDomainBatch_loop dns domains 0 w [] = Some (Inr (w', results))" by blast
  note f = loop_facts [OF r]
  have "results = [] @ map (\<lambda>k. (domains ! k, not_found (dns k))) [0..<length domains]"
    using f by blast
  moreover have "checked (stats (this w')) = checked (stats (this w)) + (length domains - 0)"
    using f by blast
  moreover have "errors (stats (this w')) = errors (stats (this w))
                + length (filter other_failure (map dns [0..<length domains]))"
    using f by blast
  ultimately show ?thesis using r by (simp add: processDomainBatch_def)
qed

theorem processDomainBatch_contains_failures_witness:
  "1 \<le> concurrentChecks (this world_example)
   \<and> settles (dns_example 0) = Some 30 \<and> settles (dns_example 1) = Some 10
   \<and> settles (dns_example 2) = Some 20
   \<and> checked (stats (this world_example)) + length [''a.com'', ''b.com'', ''c.com'']
        \<le> total (stats (this world_example))
   \<and> (\<exists>w' results.
         processDomainBatch dns_example [''a.com'', ''b.com'', ''c.com''] world_example
           = Some (Inr (w', results))
       \<and> results = [(''a.com'', True), (''b.com'', False), (''c.com'', False)]
       \<and> checked (stats (this w')) = 3
       \<and> errors (stats (this w')) = 1)"
proof -
  have h1: "1 \<le> concurrentChecks (this world_example)"
    by (simp add: world_example_def DomainFinder_def no_options_def or_number_def)
  have h2: "\<forall>k < length [''a.com'', ''b.com'', ''c.com'']. settles (dns_example k) \<noteq> None"
    by (simp add: dns_example_def)
  have h3: "checked (stats (this world_example)) + length [''a.com'', ''b.com'', ''c.com'']
              \<le> total (stats (this world_example))"
    by (simp add: world_example_def)
  from processDomainBatch_contains_failures [OF h1 h2 h3] obtain w' results where
    r: "processDomainBatch dns_example [''a.com'', ''b.com'', ''c.com''] world_example
          = Some (Inr (w', results))"
    and res: "results = map (\<lambda>k. ([''a.com'', ''b.com'', ''c.com''] ! k, not_found (dns_example k)))
                          [0..<length [''a.com'', ''b.com'', ''c.com'']]"
    and ch: "checked (stats (this w'))
               = checked (stats (this world_example)) + length [''a.com'', ''b.com'', ''c.com'']"
    and er: "errors (stats (this w')) = errors (stats (this world_example))
               + length (filter other_failure
                   (map dns_example [0..<length [''a.com'', ''b.com'', ''c.com'']]))"
    by blast
  have "results = [(''a.com'', True), (''b.com'', False), (''c.com'', False)]"
    unfolding res by (simp add: dns_example_def)
  moreover have "checked (stats (this w')) = 3"
    unfolding ch by (simp add: world_example_def)
  moreover have "errors (stats (this w')) = 1"
    unfolding er by (simp add: dns_example_def world_example_def DomainFinder_def)
  moreover have "settles (dns_example 0) = Some 30 \<and> settles (dns_example 1) = Some 10
      \<and> settles (dns_example 2) = Some 20"
    by (simp add: dns_example_def)
  ultimately show ?thesis using h1 h3 r by blast
qed

subsection \<open>The run of a new finder\<close>

lemma summary_keeps:
  "lookups (summary w) = lookups w \<and> stats (this (summary w)) = stats (this w)"
  by (simp add: summary_def Let_def)

lemma concurrentChecks_DomainFinder:
  "1 \<le> CONCURRENT_CHECKS cfg \<Longrightarrow> 1 \<le> concurrentChecks (DomainFinder cfg options)"
  by (auto simp: DomainFinder_def or_number_def split: option.splits)

lemma run_new_finder:
  assumes c: "1 \<le> CONCURRENT_CHECKS cfg" and s: "\<forall>k. settles (dns k) \<noteq> None"
  shows "\<exists>domains w1.
           generateDomains cfg sort_random pattern None = Inr domains
         \<and> findAvailableDomains cfg sort_random dns now (DomainFinder cfg options) pattern
             = Some (Inr (summary w1))
         \<and> concat (lookups w1) = domains
         \<and> checked (stats (this w1)) = length domains
         \<and> total (stats (this w1)) = length domains"
proof -
  obtain domains where g: "generateDomains cfg sort_random pattern None = Inr domains"
    by (simp add: generateDomains_fills)
  let ?f = "DomainFinder cfg options"
  let ?w0 = "\<lparr>this = ?f\<lparr>stats := (stats ?f)\<lparr>total := length domains, startTime := Some now\<rparr>\<rparr>,
               writer = [], lookups = []\<rparr>"
  have c0: "0 < concurrentChecks (this ?w0)"
    using concurrentChecks_DomainFinder [OF c, of options] by simp
  have s0: "\<forall>k \<in> set [0..<length domains]. settles (dns k) \<noteq> None" using s by simp
  have t0: "checked (stats (this ?w0)) + (length domains - 0) \<le> total (stats (this ?w0))"
    by (simp add: DomainFinder_def)
  from loop_completes [OF c0 s0 t0, of "[]"] obtain w1 results where
    r: "processDomainBatch_loop dns domains 0 ?w0 [] = Some (Inr (w1, results))" by blast
  note fa = loop_facts [OF r]
  have "\<exists>bs. lookups w1 = lookups ?w0 @ bs \<and> concat bs = drop 0 domains
          \<and> (\<forall>b \<in> set bs. b \<noteq> [] \<and> length b \<le> concurrentChecks (this ?w0))"
    using fa by blast
  then have l: "concat (lookups w1) = domains" by auto
  have "checked (stats (this w1)) = checked (stats (this ?w0)) + (length domains - 0)"
    using fa by blast
  then have ch: "checked (stats (this w1)) = length domains" by (simp add: DomainFinder_def)
  have "total (stats (this w1)) = total (stats (this ?w0))" using fa by blast
  then have tt: "total (stats (this w1)) = length domains" by simp
  have "findAvailableDomains cfg sort_random dns now ?f pattern = Some (Inr (summary w1))"
    using g r by (simp add: findAvailableDomains_def Let_def processDomainBatch_def)
  with g l ch tt show ?thesis by blast
qed

lemma dns_example_settles: "\<forall>k. settles (dns_example k) \<noteq> None"
  by (simp add: dns_example_def)

lemma example_find:
  "findAvailableDomains (CONFIG\<lparr>ALPHABET := ''ab''\<rparr>) rev dns_example 0
       (DomainFinder (CONFIG\<lparr>ALPHABET := ''ab''\<rparr>) no_options) ''x*.c''
     = Some (Inr \<lparr>this = \<lparr>concurrentChecks = 10, timeout = 5000,
                     outputFile = ''available_domains.txt'',
                     stats = \<lparr>total = 2, checked = 2, available = 1, errors = 0,
                              startTime = Some 0\<rparr>,
                     recentlyFound = [''xb.c''], currentlyChecking = ''xa.c''\<rparr>,
                  writer = [''xb.c'' @ [CHR 0x0A]], lookups = [[''xb.c'', ''xa.c'']]\<rparr>)"
  by code_simp

text \<open>
  Claim C4. With a batch size of at least 1 and lookups that all settle,
  \<^verbatim>\<open>processDomainBatch\<close> completes; the lookups it made are the candidates in their
  order, each once, in consecutive non-empty batches of at most \<^verbatim>\<open>concurrentChecks\<close>
  domains, with one result per candidate in that order; and on statistics in which the
  candidates make up the difference between checked and total, checked equals total at
  the end. Those are the statistics of a run: \<^verbatim>\<open>findAvailableDomains\<close> on a new
  finder, with a default batch size of at least 1, completes, has looked up the generated
  candidates in their order, and ends with checked and total both the number of
  candidates.
\<close>

theorem processDomainBatch_partitions_and_counts:
  "(1 \<le> concurrentChecks (this w)
      \<longrightarrow> (\<forall>k < length domains. settles (dns k) \<noteq> None)
      \<longrightarrow> total (stats (this w)) = checked (stats (this w)) + length domains
      \<longrightarrow> (\<exists>w' results.
             processDomainBatch dns domains w = Some (Inr (w', results))
           \<and> (\<exists>bs. lookups w' = lookups w @ bs \<and> concat bs = domains
                  \<and> (\<forall>b \<in> set bs. b \<noteq> [] \<and> length b \<le> concurrentChecks (this w)))
           \<and> map fst results = domains
           \<and> checked (stats (this w')) = total (stats (this w'))))
   \<and> (1 \<le> CONCURRENT_CHECKS cfg
      \<longrightarrow> (\<forall>k. settles (dns k) \<noteq> None)
      \<longrightarrow> (\<exists>w. findAvailableDomains cfg sort_random dns now (DomainFinder cfg options) pattern
                  = Some (Inr w)
               \<and> generateDomains cfg sort_random pattern None = Inr (concat (lookups w))
               \<and> total (stats (this w)) = length (concat (lookups w))
               \<and> checked (stats (this w)) = total (stats (this w))))"
proof (intro conjI impI)
  assume c: "1 \<le> concurrentChecks (this w)"
    and s: "\<forall>k < length domains. settles (dns k) \<noteq> None"
    and t: "total (stats (this w)) = checked (stats (this w)) + length domains"
  have c0: "0 < concurrentChecks (this w)" using c by simp
  have s0: "\<forall>k \<in> set [0..<length domains]. settles (dns k) \<noteq> None" using s by simp
  have t0: "checked (stats (this w)) + (length domains - 0) \<le> total (stats (this w))"
    using t by simp
  from loop_completes [OF c0 s0 t0, of "[]"] obtain w' results where
    r: "processDomainBatch_loop dns domains 0 w [] = Some (Inr (w', results))" by blast
  note f = loop_facts [OF r]
  have "results = [] @ map (\<lambda>k. (domains ! k, not_found (dns k))) [0..<length domains]"
    using f by blast
  then have "map fst results = map (\<lambda>k. domains ! k) [0..<length domains]"
    by (simp add: comp_def)
  then have m: "map fst results = domains" by (simp add: map_nth)
  have ch: "checked (stats (this w')) = checked (stats (this w)) + (length domains - 0)"
    using f by blast
  have tt: "total (stats (this w')) = total (stats (this w))" using f by blast
  have "\<exists>bs. lookups w' = lookups w @ bs \<and> concat bs = drop 0 domains
             \<and> (\<forall>b \<in> set bs. b \<noteq> [] \<and> length b \<le> concurrentChecks (this w))"
    using f by blast
  then have p: "\<exists>bs. lookups w' = lookups w @ bs \<and> concat bs = domains
             \<and> (\<forall>b \<in> set bs. b \<noteq> [] \<and> length b \<le> concurrentChecks (this w))"
    by simp
  have e: "checked (stats (this w')) = total (stats (this w'))" using ch tt t by simp
  show "\<exists>w' results.
             processDomainBatch dns domains w = Some (Inr (w', results))
           \<and> (\<exists>bs. lookups w' = lookups w @ bs \<and> concat bs = domains
                  \<and> (\<forall>b \<in> set bs. b \<noteq> [] \<and> length b \<le> concurrentChecks (this w)))
           \<and> map fst results = domains
           \<and> checked (stats (this w')) = total (stats (this w'))"
  proof (rule exI [of _ w'], rule exI [of _ results], intro conjI)
    show "processDomainBatch dns domains w = Some (Inr (w', results))"
      using r by (simp add: processDomainBatch_def)
    show "\<exists>bs. lookups w' = lookups w @ bs \<and> concat bs = domains
             \<and> (\<forall>b \<in> set bs. b \<noteq> [] \<and> length b \<le> concurrentChecks (this w))"
      by (rule p)
    show "map fst results = domains" by (rule m)
    show "checked (stats (this w')) = total (stats (this w'))" by (rule e)
  qed
next
  assume c: "1 \<le> CONCURRENT_CHECKS cfg" and s: "\<forall>k. settles (dns k) \<noteq> None"
  from run_new_finder [OF c s, of sort_random pattern now options]
  obtain domains w1 where
    g: "generateDomains cfg sort_random pattern None = Inr domains"
    and r: "findAvailableDomains cfg sort_random dns now (DomainFinder cfg options) pattern
             = Some (Inr (summary w1))"
    and l: "concat (lookups w1) = domains"
    and ch: "checked (stats (this w1)) = length domains"
    and tt: "total (stats (this w1)) = length domains"
    by blast
  show "\<exists>w. findAvailableDomains cfg sort_random dns now (DomainFinder cfg options) pattern
                  = Some (Inr w)
               \<and> generateDomains cfg sort_random pattern None = Inr (concat (lookups w))
               \<and> total (stats (this w)) = length (concat (lookups w))
               \<and> checked (stats (this w)) = total (stats (this w))"
  proof (rule exI [of _ "summary w1"], intro conjI)
    show "findAvailableDomains cfg sort_random dns now (DomainFinder cfg options) pattern
            = Some (Inr (summary w1))"
      by (rule r)
    show "generateDomains cfg sort_random pattern None = Inr (concat (lookups (summary w1)))"
      unfolding g by (simp add: summary_keeps l)
    show "total (stats (this (summary w1))) = length (concat (lookups (summary w1)))"
      by (simp add: summary_keeps l tt)
    show "checked (stats (this (summary w1))) = total (stats (this (summary w1)))"
      by (simp add: summary_keeps ch tt)
  qed
qed

theorem processDomainBatch_partitions_and_counts_witness:
  "1 \<le> concurrentChecks (this world_example)
   \<and> settles (dns_example 0) = Some 30 \<and> settles (dns_example 1) = Some 10
   \<and> settles (dns_example 2) = Some 20
   \<and> total (stats (this world_example))
       = checked (stats (this world_example)) + length [''a.com'', ''b.com'', ''c.com'']
   \<and> (\<exists>w' results.
         processDomainBatch dns_example [''a.com'', ''b.com'', ''c.com''] world_example
           = Some (Inr (w', results))
       \<and> (\<exists>bs. lookups w' = lookups world_example @ bs
              \<and> concat bs = [''a.com'', ''b.com'', ''c.com'']
              \<and> (\<forall>b \<in> set bs. b \<noteq> [] \<and> length b \<le> concurrentChecks (this world_example)))
       \<and> map fst results = [''a.com'', ''b.com'', ''c.com'']
       \<and> checked (stats (this w')) = total (stats (this w'))
       \<and> lookups w' = [[''a.com'', ''b.com''], [''c.com'']]
       \<and> checked (stats (this w')) = 3)
   \<and> 1 \<le> CONCURRENT_CHECKS (CONFIG\<lparr>ALPHABET := ''ab''\<rparr>)
   \<and> (\<exists>w. findAvailableDomains (CONFIG\<lparr>ALPHABET := ''ab''\<rparr>) rev dns_example 0
               (DomainFinder (CONFIG\<lparr>ALPHABET := ''ab''\<rparr>) no_options) ''x*.c'' = Some (Inr w)
          \<and> generateDomains (CONFIG\<lparr>ALPHABET := ''ab''\<rparr>) rev ''x*.c'' None
              = Inr (concat (lookups w))
          \<and> total (stats (this w)) = length (concat (lookups w))
          \<and> checked (stats (this w)) = total (stats (this w))
          \<and> checked (stats (this w)) = 2)"
proof -
  let ?ds = "[''a.com'', ''b.com'', ''c.com'']"
  let ?cfg = "CONFIG\<lparr>ALPHABET := ''ab''\<rparr>"
  have h1: "1 \<le> concurrentChecks (this world_example)"
    by (simp add: world_example_def DomainFinder_def no_options_def or_number_def)
  have h2: "\<forall>k < length ?ds. settles (dns_example k) \<noteq> None"
    using dns_example_settles by simp
  have h3: "total (stats (this world_example)) = checked (stats (this world_example)) + length ?ds"
    by (simp add: world_example_def)
  have h4: "1 \<le> CONCURRENT_CHECKS ?cfg" by (simp add: CONFIG_def)
  note t = processDomainBatch_partitions_and_counts
    [where w = world_example and domains = ?ds and dns = dns_example and cfg = ?cfg
       and sort_random = rev and now = 0 and options = no_options and pattern = "''x*.c''"]
  from t [THEN conjunct1, THEN mp, THEN mp, THEN mp, OF h1 h2 h3] obtain w' results where
    abcd: "processDomainBatch dns_example ?ds world_example = Some (Inr (w', results))
       \<and> (\<exists>bs. lookups w' = lookups world_example @ bs \<and> concat bs = ?ds
              \<and> (\<forall>b \<in> set bs. b \<noteq> [] \<and> length b \<le> concurrentChecks (this world_example)))
       \<and> map fst results = ?ds
       \<and> checked (stats (this w')) = total (stats (this w'))"
    by (elim exE)
  note a = abcd [THEN conjunct1]
  note b = abcd [THEN conjunct2, THEN conjunct1]
  note c = abcd [THEN conjunct2, THEN conjunct2, THEN conjunct1]
  note d = abcd [THEN conjunct2, THEN conjunct2, THEN conjunct2]
  have w': "w' = \<lparr>this = \<lparr>concurrentChecks = 2, timeout = 5000,
                  outputFile = ''available_domains.txt'',
                  stats = \<lparr>total = 3, checked = 3, available = 1, errors = 1,
                           startTime = Some 0\<rparr>,
                  recentlyFound = [''a.com''], currentlyChecking = ''c.com''\<rparr>,
            writer = [''a.com'' @ [CHR 0x0A]], lookups = [[''a.com'', ''b.com''], [''c.com'']]\<rparr>"
    using a unfolding example_run by simp
  have e1: "lookups w' = [[''a.com'', ''b.com''], [''c.com'']]" unfolding w' by simp
  have e2: "checked (stats (this w')) = 3" unfolding w' by simp
  have p1: "\<exists>w' results.
         processDomainBatch dns_example ?ds world_example = Some (Inr (w', results))
       \<and> (\<exists>bs. lookups w' = lookups world_example @ bs \<and> concat bs = ?ds
              \<and> (\<forall>b \<in> set bs. b \<noteq> [] \<and> length b \<le> concurrentChecks (this world_example)))
       \<and> map fst results = ?ds
       \<and> checked (stats (this w')) = total (stats (this w'))
       \<and> lookups w' = [[''a.com'', ''b.com''], [''c.com'']]
       \<and> checked (stats (this w')) = 3"
    by (rule exI [of _ w'], rule exI [of _ results]) (intro conjI a b c d e1 e2)
  from t [THEN conjunct2, THEN mp, THEN mp, OF h4 dns_example_settles] obtain w where
    fgij: "findAvailableDomains ?cfg rev dns_example 0 (DomainFinder ?cfg no_options) ''x*.c''
          = Some (Inr w)
       \<and> generateDomains ?cfg rev ''x*.c'' None = Inr (concat (lookups w))
       \<and> total (stats (this w)) = length (concat (lookups w))
       \<and> checked (stats (this w)) = total (stats (this w))"
    by (elim exE)
  note f = fgij [THEN conjunct1]
  note g = fgij [THEN conjunct2, THEN conjunct1]
  note i = fgij [THEN conjunct2, THEN conjunct2, THEN conjunct1]
  note j = fgij [THEN conjunct2, THEN conjunct2, THEN conjunct2]
  have k: "checked (stats (this w)) = 2"
    using f unfolding example_find by auto
  have p2: "\<exists>w. findAvailableDomains ?cfg rev dns_example 0 (DomainFinder ?cfg no_options) ''x*.c''
               = Some (Inr w)
          \<and> generateDomains ?cfg rev ''x*.c'' None = Inr (concat (lookups w))
          \<and> total (stats (this w)) = length (concat (lookups w))
          \<and> checked (stats (this w)) = total (stats (this w))
          \<and> checked (stats (this w)) = 2"
    by (rule exI [of _ w]) (intro conjI f g i j k)
  have s1: "settles (dns_example 0) = Some 30" and s2: "settles (dns_example 1) = Some 10"
    and s3: "settles (dns_example 2) = Some 20"
    by (simp_all add: dns_example_def)
  show ?thesis by (intro conjI h1 s1 s2 s3 h3 p1 h4 p2)
qed

subsection \<open>The recent hits\<close>

lemma remember_take:
  assumes "length recent \<le> 3"
  shows "remember d recent = take 3 (d # recent)"
proof (cases "length recent = 3")
  case True
  then have "remember d recent = butlast (d # recent)"
    by (simp add: remember_def Let_def)
  also have "\<dots> = take (length (d # recent) - 1) (d # recent)"
    by (rule butlast_conv_take)
  finally show ?thesis using True by simp
next
  case False
  with assms have "length (d # recent) \<le> 3" by simp
  then show ?thesis
    by (simp add: remember_def Let_def del: length_Cons)
qed

lemma take_append_take: "take n (xs @ take n ys) = take n (xs @ ys)"
  by (simp add: min_def)

lemma discovered_append: "discovered (xs @ ys) = discovered xs @ discovered ys"
  by (simp add: discovered_def)

lemma check_resume_recent:
  assumes "check_resume (j, d, r) (w, ps) = (w', ps')"
  shows "recentlyFound (this w') =
           (if not_found r then remember d (recentlyFound (this w)) else recentlyFound (this w))"
  using assms by (cases r) (auto simp: check_resume_def Let_def split: if_splits)

lemma resumes_recent:
  assumes "length (recentlyFound (this w)) \<le> 3"
    and "fold check_resume its (w, ps) = (w', ps')"
  shows "recentlyFound (this w') = take 3 (rev (discovered its) @ recentlyFound (this w))"
  using assms
proof (induction its arbitrary: w ps)
  case Nil
  then show ?case by (simp add: discovered_def)
next
  case (Cons item its)
  obtain j d r where item: "item = (j, d, r)" by (cases item)
  obtain w1 ps1 where st: "check_resume (j, d, r) (w, ps) = (w1, ps1)"
    by (cases "check_resume (j, d, r) (w, ps)")
  have r1: "recentlyFound (this w1) = take 3 ((if not_found r then [d] else []) @ recentlyFound (this w))"
    using check_resume_recent [OF st] Cons.prems(1) by (simp add: remember_take)
  then have l1: "length (recentlyFound (this w1)) \<le> 3" by simp
  from Cons.prems(2) have "fold check_resume its (w1, ps1) = (w', ps')" by (simp add: item st)
  from Cons.IH [OF l1 this]
  have "recentlyFound (this w') = take 3 (rev (discovered its) @ recentlyFound (this w1))" .
  also have "\<dots> = take 3 (rev (discovered its) @ (if not_found r then [d] else []) @ recentlyFound (this w))"
    unfolding r1 by (rule take_append_take)
  also have "\<dots> = take 3 (rev (discovered (item # its)) @ recentlyFound (this w))"
    by (simp add: discovered_def item)
  finally show ?case .
qed

lemma run_batch_recent:
  assumes "length (recentlyFound (this w)) \<le> 3" and "run_batch batch rs w = Some (w', res)"
  shows "recentlyFound (this w')
         = take 3 (rev (discovered (arrivals batch rs)) @ recentlyFound (this w))"
proof -
  let ?w2 = "(fold check_start batch w)\<lparr>lookups := lookups (fold check_start batch w) @ [batch]\<rparr>"
  have same: "recentlyFound (this ?w2) = recentlyFound (this w)"
    by (simp add: fold_check_start)
  obtain ps' where "fold check_resume (arrivals batch rs) (?w2, replicate (length batch) None) = (w', ps')"
    using assms(2) by (auto simp: run_batch_def Let_def split: prod.splits)
  from resumes_recent [OF _ this] assms(1) same show ?thesis by simp
qed

lemma loop_recent:
  assumes "length (recentlyFound (this w)) \<le> 3"
    and "processDomainBatch_loop dns domains i w results = Some (Inr (w', results'))"
  shows "recentlyFound (this w')
         = take 3 (rev (discovered (completions (concurrentChecks (this w)) dns domains i))
                   @ recentlyFound (this w))"
  using assms
proof (induction "length domains - i" arbitrary: i w results rule: less_induct)
  case less
  show ?case
  proof (cases "i < length domains")
    case False
    with less.prems have "w' = w" by (simp add: loop_done)
    moreover have "completions (concurrentChecks (this w)) dns domains i = []"
      using False by (subst completions.simps) simp
    ultimately show ?thesis using less.prems(1) by (simp add: discovered_def)
  next
    case True
    let ?c = "concurrentChecks (this w)"
    let ?batch = "take ?c (drop i domains)"
    let ?rs = "map dns [i..<i + length ?batch]"
    from loop_step [OF True less.prems(2)] obtain w1 br where
      c: "?c \<noteq> 0" and rb: "run_batch ?batch ?rs w = Some (w1, br)"
      and rest: "processDomainBatch_loop dns domains (i + ?c) w1 (results @ br)
                   = Some (Inr (w', results'))"
      by blast
    have cc: "concurrentChecks (this w1) = ?c" using rb by (rule concurrentChecks_run_batch)
    have r1: "recentlyFound (this w1)
              = take 3 (rev (discovered (arrivals ?batch ?rs)) @ recentlyFound (this w))"
      using less.prems(1) rb by (rule run_batch_recent)
    then have l1: "length (recentlyFound (this w1)) \<le> 3" by simp
    have m: "length domains - (i + ?c) < length domains - i" using True c by simp
    have u: "completions ?c dns domains i = arrivals ?batch ?rs @ completions ?c dns domains (i + ?c)"
      using True c by (subst completions.simps) (simp add: Let_def)
    have "recentlyFound (this w')
          = take 3 (rev (discovered (completions ?c dns domains (i + ?c))) @ recentlyFound (this w1))"
      using less.hyps [OF m l1 rest] cc by simp
    also have "\<dots> = take 3 (rev (discovered (completions ?c dns domains (i + ?c)))
                        @ rev (discovered (arrivals ?batch ?rs)) @ recentlyFound (this w))"
      unfolding r1 by (rule take_append_take)
    also have "\<dots> = take 3 (rev (discovered (completions ?c dns domains i)) @ recentlyFound (this w))"
      by (simp add: u discovered_append)
    finally show ?thesis .
  qed
qed

lemma example_hits:
  "take 3 (rev (discovered hits_example) @ recentlyFound (this world_example))
     = [''d.com'', ''c.com'', ''b.com'']"
  by (simp add: discovered_def hits_example_def world_example_def DomainFinder_def)

lemma example_completions:
  "take 3 (rev (discovered (completions (concurrentChecks (this world_example)) dns_example
       [''a.com'', ''b.com'', ''c.com''] 0))) = [''a.com'']"
  by code_simp

text \<open>
  Claim C7. The recent hits of a new finder are empty. After every sequence of resumed
  callbacks, from recent hits of at most 3, they are the 3 newest of the domains
  discovered to be available by these callbacks, newest first, followed by the earlier
  hits: at most 3, and empty only if nothing was discovered and they were empty before, so
  never cleared. So a run of \<^verbatim>\<open>processDomainBatch\<close> that starts with no hits, a batch
  size of at least 1, lookups that all settle and statistics that leave room for the
  candidates completes with the 3 domains discovered last in the run, newest first.
\<close>

theorem recentlyFound_ring:
  "recentlyFound (DomainFinder cfg options) = []
   \<and> (length (recentlyFound (this w)) \<le> 3 \<longrightarrow>
        recentlyFound (this (fst (fold check_resume its (w, ps))))
          = take 3 (rev (discovered its) @ recentlyFound (this w))
      \<and> length (recentlyFound (this (fst (fold check_resume its (w, ps))))) \<le> 3
      \<and> (recentlyFound (this (fst (fold check_resume its (w, ps)))) = []
           \<longleftrightarrow> discovered its = [] \<and> recentlyFound (this w) = []))
   \<and> (recentlyFound (this w) = [] \<longrightarrow> 1 \<le> concurrentChecks (this w)
        \<longrightarrow> (\<forall>k < length domains. settles (dns k) \<noteq> None)
        \<longrightarrow> checked (stats (this w)) + length domains \<le> total (stats (this w))
        \<longrightarrow> (\<exists>w' results.
               processDomainBatch dns domains w = Some (Inr (w', results))
             \<and> recentlyFound (this w')
                 = take 3 (rev (discovered (completions (concurrentChecks (this w)) dns domains 0)))))"
proof (intro conjI impI)
  show "recentlyFound (DomainFinder cfg options) = []" by (simp add: DomainFinder_def)
next
  assume l: "length (recentlyFound (this w)) \<le> 3"
  obtain w' ps' where f: "fold check_resume its (w, ps) = (w', ps')"
    by (cases "fold check_resume its (w, ps)")
  from resumes_recent [OF l f]
  show "recentlyFound (this (fst (fold check_resume its (w, ps))))
          = take 3 (rev (discovered its) @ recentlyFound (this w))"
    by (simp add: f)
  then show "length (recentlyFound (this (fst (fold check_resume its (w, ps))))) \<le> 3"
    by simp
next
  assume l: "length (recentlyFound (this w)) \<le> 3"
  obtain w' ps' where f: "fold check_resume its (w, ps) = (w', ps')"
    by (cases "fold check_resume its (w, ps)")
  from resumes_recent [OF l f]
  show "recentlyFound (this (fst (fold check_resume its (w, ps)))) = []
          \<longleftrightarrow> discovered its = [] \<and> recentlyFound (this w) = []"
    by (auto simp: f)
next
  assume e: "recentlyFound (this w) = []" and c: "1 \<le> concurrentChecks (this w)"
    and s: "\<forall>k < length domains. settles (dns k) \<noteq> None"
    and t: "checked (stats (this w)) + length domains \<le> total (stats (this w))"
  have c0: "0 < concurrentChecks (this w)" using c by simp
  have s0: "\<forall>k \<in> set [0..<length domains]. settles (dns k) \<noteq> None" using s by simp
  have t0: "checked (stats (this w)) + (length domains - 0) \<le> total (stats (this w))"
    using t by simp
  from loop_completes [OF c0 s0 t0, of "[]"] obtain w' results where
    r: "processDomainBatch_loop dns domains 0 w [] = Some (Inr (w', results))" by blast
  have l: "length (recentlyFound (this w)) \<le> 3" using e by simp
  from loop_recent [OF l r] e
  have "recentlyFound (this w')
          = take 3 (rev (discovered (completions (concurrentChecks (this w)) dns domains 0)))"
    by simp
  with r show "\<exists>w' results.
               processDomainBatch dns domains w = Some (Inr (w', results))
             \<and> recentlyFound (this w')
                 = take 3 (rev (discovered (completions (concurrentChecks (this w)) dns domains 0)))"
    unfolding processDomainBatch_def by blast
qed

theorem recentlyFound_ring_witness:
  "recentlyFound (DomainFinder CONFIG no_options) = []
   \<and> length (recentlyFound (this world_example)) \<le> 3
   \<and> recentlyFound (this (fst (fold check_resume hits_example (world_example, replicate 4 None))))
       = take 3 (rev (discovered hits_example) @ recentlyFound (this world_example))
   \<and> recentlyFound (this (fst (fold check_resume hits_example (world_example, replicate 4 None))))
       = [''d.com'', ''c.com'', ''b.com'']
   \<and> recentlyFound (this world_example) = []
   \<and> 1 \<le> concurrentChecks (this world_example)
   \<and> settles (dns_example 0) = Some 30 \<and> settles (dns_example 1) = Some 10
   \<and> settles (dns_example 2) = Some 20
   \<and> checked (stats (this world_example)) + length [''a.com'', ''b.com'', ''c.com'']
        \<le> total (stats (this world_example))
   \<and> (\<exists>w' results.
         processDomainBatch dns_example [''a.com'', ''b.com'', ''c.com''] world_example
           = Some (Inr (w', results))
       \<and> recentlyFound (this w')
           = take 3 (rev (discovered (completions (concurrentChecks (this world_example))
                 dns_example [''a.com'', ''b.com'', ''c.com''] 0)))
       \<and> recentlyFound (this w') = [''a.com''])"
proof -
  let ?ds = "[''a.com'', ''b.com'', ''c.com'']"
  have h0: "length (recentlyFound (this world_example)) \<le> 3"
    and h1: "recentlyFound (this world_example) = []"
    by (simp_all add: world_example_def DomainFinder_def)
  have h2: "1 \<le> concurrentChecks (this world_example)"
    by (simp add: world_example_def DomainFinder_def no_options_def or_number_def)
  have h3: "\<forall>k < length ?ds. settles (dns_example k) \<noteq> None"
    using dns_example_settles by simp
  have h4: "checked (stats (this world_example)) + length ?ds \<le> total (stats (this world_example))"
    by (simp add: world_example_def)
  note t = recentlyFound_ring
    [where cfg = CONFIG and options = no_options and w = world_example and its = hits_example
       and ps = "replicate 4 None" and domains = ?ds and dns = dns_example]
  from t [THEN conjunct1] have a: "recentlyFound (DomainFinder CONFIG no_options) = []" .
  from t [THEN conjunct2, THEN conjunct1, THEN mp, OF h0, THEN conjunct1] have b: "recentlyFound (this (fst (fold check_resume hits_example (world_example, replicate 4 None))))
       = take 3 (rev (discovered hits_example) @ recentlyFound (this world_example))" .
  then have c: "recentlyFound (this (fst (fold check_resume hits_example (world_example, replicate 4 None))))
       = [''d.com'', ''c.com'', ''b.com'']"
    by (simp only: example_hits)
  from t [THEN conjunct2, THEN conjunct2, THEN mp, THEN mp, THEN mp, THEN mp, OF h1 h2 h3 h4] obtain w' results where
    d: "processDomainBatch dns_example ?ds world_example = Some (Inr (w', results))"
    and e: "recentlyFound (this w')
           = take 3 (rev (discovered (completions (concurrentChecks (this world_example))
                 dns_example ?ds 0)))"
    by blast
  from e have f: "recentlyFound (this w') = [''a.com'']"
    by (simp only: example_completions)
  have s: "settles (dns_example 0) = Some 30 \<and> settles (dns_example 1) = Some 10
             \<and> settles (dns_example 2) = Some 20"
    by (simp add: dns_example_def)
  show ?thesis using a h0 b c h1 h2 s h4 d e f by blast
qed

subsection \<open>The run\<close>

text \<open>
  Claim C10. \<^verbatim>\<open>findAvailableDomains\<close> calls the generator without the argument
  \<open>randomize\<close>, which then is true: a run on a new finder, with a default batch size of
  at least 1 and lookups that all settle, completes, and the domains it has looked up are,
  in order, the candidates generated with \<open>randomize\<close> true, that is, for a pattern with a
  marker, the expansion over the randomly sorted alphabet.
\<close>

theorem findAvailableDomains_shuffles:
  assumes "1 \<le> CONCURRENT_CHECKS cfg" and "\<forall>k. settles (dns k) \<noteq> None"
  shows "\<exists>w. findAvailableDomains cfg sort_random dns now (DomainFinder cfg options) pattern
                = Some (Inr w)
           \<and> generateDomains cfg sort_random pattern None = Inr (concat (lookups w))
           \<and> generateDomains cfg sort_random pattern None
               = generateDomains cfg sort_random pattern (Some True)
           \<and> (CHR ''*'' \<in> set pattern \<longrightarrow>
                generateWithWildcard (sort_random (ALPHABET cfg)) pattern 0 []
                  = Inr (concat (lookups w)))"
proof -
  from run_new_finder [OF assms, of sort_random pattern now options]
  obtain domains w1 where
    g: "generateDomains cfg sort_random pattern None = Inr domains"
    and r: "findAvailableDomains cfg sort_random dns now (DomainFinder cfg options) pattern
             = Some (Inr (summary w1))"
    and l: "concat (lookups w1) = domains"
    by blast
  have d: "generateDomains cfg sort_random pattern None
           = generateDomains cfg sort_random pattern (Some True)"
    by (simp add: generateDomains_def)
  have w: "generateWithWildcard (sort_random (ALPHABET cfg)) pattern 0 [] = Inr domains"
    if "CHR ''*'' \<in> set pattern"
    using g that by (simp add: generateDomains_def Let_def)
  show ?thesis
  proof (rule exI [of _ "summary w1"], intro conjI impI)
    show "findAvailableDomains cfg sort_random dns now (DomainFinder cfg options) pattern
            = Some (Inr (summary w1))"
      by (rule r)
    show "generateDomains cfg sort_random pattern None = Inr (concat (lookups (summary w1)))"
      unfolding g by (simp add: summary_keeps l)
    show "generateDomains cfg sort_random pattern None
           = generateDomains cfg sort_random pattern (Some True)"
      by (rule d)
    assume "CHR ''*'' \<in> set pattern"
    then show "generateWithWildcard (sort_random (ALPHABET cfg)) pattern 0 []
                = Inr (concat (lookups (summary w1)))"
      by (simp add: w summary_keeps l)
  qed
qed

theorem findAvailableDomains_shuffles_witness:
  "1 \<le> CONCURRENT_CHECKS (CONFIG\<lparr>ALPHABET := ''ab''\<rparr>)
   \<and> settles (dns_example 0) = Some 30 \<and> settles (dns_example 1) = Some 10
   \<and> (\<exists>w. findAvailableDomains (CONFIG\<lparr>ALPHABET := ''ab''\<rparr>) rev dns_example 0
               (DomainFinder (CONFIG\<lparr>ALPHABET := ''ab''\<rparr>) no_options) ''x*.c'' = Some (Inr w)
          \<and> generateDomains (CONFIG\<lparr>ALPHABET := ''ab''\<rparr>) rev ''x*.c'' None
              = Inr (concat (lookups w))
          \<and> generateDomains (CONFIG\<lparr>ALPHABET := ''ab''\<rparr>) rev ''x*.c'' None
              = generateDomains (CONFIG\<lparr>ALPHABET := ''ab''\<rparr>) rev ''x*.c'' (Some True)
          \<and> generateWithWildcard (rev (ALPHABET (CONFIG\<lparr>ALPHABET := ''ab''\<rparr>))) ''x*.c'' 0 []
              = Inr (concat (lookups w))
          \<and> concat (lookups w) = [''xb.c'', ''xa.c''])
   \<and> CHR ''*'' \<in> set ''x*.c''
   \<and> generateDomains (CONFIG\<lparr>ALPHABET := ''ab''\<rparr>) rev ''x*.c'' (Some False)
       = Inr [''xa.c'', ''xb.c'']"
proof -
  let ?cfg = "CONFIG\<lparr>ALPHABET := ''ab''\<rparr>"
  have h: "1 \<le> CONCURRENT_CHECKS ?cfg" by (simp add: CONFIG_def)
  have m: "CHR ''*'' \<in> set ''x*.c''" by simp
  from findAvailableDomains_shuffles [OF h dns_example_settles, of rev 0 no_options "''x*.c''"] m
  obtain w where
    f: "findAvailableDomains ?cfg rev dns_example 0 (DomainFinder ?cfg no_options) ''x*.c''
          = Some (Inr w)"
    and g: "generateDomains ?cfg rev ''x*.c'' None = Inr (concat (lookups w))"
    and d: "generateDomains ?cfg rev ''x*.c'' None = generateDomains ?cfg rev ''x*.c'' (Some True)"
    and x: "generateWithWildcard (rev (ALPHABET ?cfg)) ''x*.c'' 0 [] = Inr (concat (lookups w))"
    by blast
  have l: "concat (lookups w) = [''xb.c'', ''xa.c'']"
    using f by (auto simp: example_find)
  have e: "generateDomains ?cfg rev ''x*.c'' (Some False) = Inr [''xa.c'', ''xb.c'']"
    by (simp add: generateDomains_fills)
  have s: "settles (dns_example 0) = Some 30 \<and> settles (dns_example 1) = Some 10"
    by (simp add: dns_example_def)
  show ?thesis using h s f g d x l m e by blast
qed

end
